theory Spec2Isabelle
  imports Complex_Main "HOL-Library.Word"
begin

unbundle bit_operations_syntax

section \<open>Data model\<close>

text \<open>
  A shallow embedding of the BER simulator: \<^verbatim>\<open>coder.cpp\<close>, \<^verbatim>\<open>modem.hpp\<close>,
  \<^verbatim>\<open>channel.cpp\<close>, \<^verbatim>\<open>simulation.cpp\<close> and the sweep loop of \<^verbatim>\<open>main.cpp\<close>.

  Conventions. A \<^verbatim>\<open>std::vector<int>\<close> of bits is an \<open>int list\<close>; \<^verbatim>\<open>uint32_t\<close> is
  \<open>32 word\<close>; array indices and the 64-bit counters are \<open>nat\<close> (no frame count of
  interest reaches \<open>2^64\<close>). A \<^verbatim>\<open>double\<close> is a \<open>real\<close>. The Wilson interval and the
  quotient \<open>ber\<close> of the result record, whose properties depend on rounding, are
  computed in binary64 (below); everything else on doubles (the modem, the channel,
  the noise scale, the relative target of the stop test) is computed exactly.
  The standard library's \<^verbatim>\<open>std::mt19937_64\<close> and its distributions are not part of the
  repository: a generator state is a value of a type variable and the draws are
  parameters.
\<close>

subsection \<open>coder.cpp: the K=7, R=1/2 convolutional code\<close>

definition p4 :: "int list" where
  "p4 = [0, 1, 1, 0, 1, 0, 0, 1, 1, 0, 0, 1, 0, 1, 1, 0]"

definition parity32 :: "32 word \<Rightarrow> int" where
  "parity32 x =
     (let x1 = x XOR drop_bit 16 x;
          x2 = x1 XOR drop_bit 8 x1;
          x3 = x2 XOR drop_bit 4 x2;
          x4 = x3 AND 0xF
      in p4 ! unat x4)"

text \<open>Generators \<^verbatim>\<open>0b1011011\<close> and \<^verbatim>\<open>0b1111001\<close>, memory \<open>M = 6\<close>.\<close>

definition G0 :: "32 word" where "G0 = 91"
definition G1 :: "32 word" where "G1 = 121"
definition M :: nat where "M = 6"

text \<open>The lambda \<^verbatim>\<open>push\<close> of \<^verbatim>\<open>ConvK7R12::encode\<close>, on the pair \<open>(sr, c)\<close> it mutates.\<close>

definition push :: "32 word \<times> int list \<Rightarrow> int \<Rightarrow> 32 word \<times> int list" where
  "push st b =
     (let sr = (push_bit 1 (fst st) OR word_of_int (b AND 1)) AND (push_bit (M + 1) 1 - 1);
          v0 = parity32 (sr AND G0);
          v1 = parity32 (sr AND G1)
      in (sr, snd st @ [v0, v1]))"

definition encode :: "int list \<Rightarrow> int list" where
  "encode u = snd (foldl push (foldl push (0, []) u) (replicate M 0))"

definition NSTATE :: nat where "NSTATE = push_bit M 1"
text \<open>The constant \<^verbatim>\<open>INF = 1e9\<close> (renamed: \<open>INF\<close> is reserved syntax).\<close>

definition PM_INF :: int where "PM_INF = 1000000000"

record Trans =
  nxt :: nat
  out :: int

definition trans_entry :: "nat \<Rightarrow> 32 word \<Rightarrow> Trans" where
  "trans_entry s b =
     (let sr = (push_bit 1 (word_of_nat s) OR b) AND (push_bit (M + 1) 1 - 1);
          v0 = parity32 (sr AND G0);
          v1 = parity32 (sr AND G1)
      in \<lparr>nxt = unat (sr AND (push_bit M 1 - 1)), out = push_bit 1 v0 OR v1\<rparr>)"

definition T0 :: "Trans list" where
  "T0 = map (\<lambda>s. trans_entry s 0) [0..<NSTATE]"

definition T1 :: "Trans list" where
  "T1 = map (\<lambda>s. trans_entry s 1) [0..<NSTATE]"

text \<open>
  The decoder's working arrays: \<^verbatim>\<open>pm_curr\<close>, \<^verbatim>\<open>pred\<close> and \<^verbatim>\<open>dec\<close>, the last two flat
  with index \<^verbatim>\<open>t * NSTATE + ns\<close>.
\<close>

type_synonym vit = "int list \<times> int list \<times> int list"

text \<open>One of the two blocks \<^verbatim>\<open>// b=0\<close>, \<^verbatim>\<open>// b=1\<close> of the inner loop.\<close>

definition relax :: "nat \<Rightarrow> nat \<Rightarrow> int \<Rightarrow> int \<Rightarrow> Trans \<Rightarrow> int \<Rightarrow> vit \<Rightarrow> vit" where
  "relax t s pm r tr b st =
     (case st of (pm_curr, pred, dec) \<Rightarrow>
        let ns = nxt tr; ref = out tr;
            dist = ((drop_bit 1 ref AND 1) XOR (drop_bit 1 r AND 1)) + ((ref AND 1) XOR (r AND 1));
            m = pm + dist
        in if m < pm_curr ! ns
           then (pm_curr[ns := m], pred[t * NSTATE + ns := int s], dec[t * NSTATE + ns := b])
           else st)"

text \<open>The body of \<^verbatim>\<open>for (int s = 0; s < NSTATE; ++s)\<close>.\<close>

definition state_step :: "nat \<Rightarrow> int \<Rightarrow> int list \<Rightarrow> vit \<Rightarrow> nat \<Rightarrow> vit" where
  "state_step t r pm_prev st s =
     (let pm = pm_prev ! s
      in if pm \<ge> PM_INF then st
         else relax t s pm r (T1 ! s) 1 (relax t s pm r (T0 ! s) 0 st))"

text \<open>
  The body of \<^verbatim>\<open>for (size_t t = 0; t < n_sym; ++t)\<close>. The state carries \<^verbatim>\<open>pm_prev\<close>;
  \<^verbatim>\<open>pm_curr\<close> is refilled with \<open>INF\<close> at each step and swapped in at the end.
\<close>

definition acs_step :: "int list \<Rightarrow> vit \<Rightarrow> nat \<Rightarrow> vit" where
  "acs_step c_hat st t =
     (case st of (pm_prev, pred, dec) \<Rightarrow>
        let r = push_bit 1 (c_hat ! (2 * t)) OR c_hat ! (2 * t + 1)
        in foldl (state_step t r pm_prev) (replicate NSTATE PM_INF, pred, dec) [0..<NSTATE])"

text \<open>The body of the traceback loop \<^verbatim>\<open>for (size_t t = n_sym; t-- > 0;)\<close>.\<close>

definition tb_step :: "int list \<Rightarrow> int list \<Rightarrow> nat \<Rightarrow> nat \<times> int list \<Rightarrow> nat \<Rightarrow> nat \<times> int list" where
  "tb_step pred dec K st t =
     (case st of (state, u_hat) \<Rightarrow>
        let b = dec ! (t * NSTATE + state);
            p = pred ! (t * NSTATE + state)
        in (if p \<ge> 0 then nat p else 0, if t < K then u_hat[t := b] else u_hat))"

definition decode :: "int list \<Rightarrow> int list" where
  "decode c_hat =
     (let n_sym = length c_hat div 2
      in if n_sym = 0 then []
         else case foldl (acs_step c_hat)
                     ((replicate NSTATE PM_INF)[0 := 0],
                      replicate (n_sym * NSTATE) (- 1),
                      replicate (n_sym * NSTATE) 0)
                     [0..<n_sym] of
           (pm_prev, pred, dec) \<Rightarrow>
             let K = (if n_sym > M then n_sym - M else 0)
             in snd (foldl (tb_step pred dec K) (0, replicate K 0) (rev [0..<n_sym])))"

subsection \<open>modem.hpp\<close>

datatype Mapping = Gray | Natural

datatype modem = Ask2Modem | Ask4Modem Mapping

fun bits_per_symbol :: "modem \<Rightarrow> nat" where
  "bits_per_symbol Ask2Modem = 1"
| "bits_per_symbol (Ask4Modem mp) = 2"

fun symbol_energy :: "modem \<Rightarrow> real" where
  "symbol_energy Ask2Modem = 1"
| "symbol_energy (Ask4Modem mp) = 5"

fun modulate :: "modem \<Rightarrow> int list \<Rightarrow> real" where
  "modulate Ask2Modem bits = (if bits ! 0 \<noteq> 0 then - 1 else 1)"
| "modulate (Ask4Modem mp) bits =
     (let b0 = bits ! 0; b1 = bits ! 1; val = push_bit 1 b0 OR b1
      in if mp = Gray
         then (if val = 0 then - 3 else if val = 1 then - 1
               else if val = 3 then 1 else if val = 2 then 3 else 0)
         else (if val = 0 then - 3 else if val = 1 then - 1
               else if val = 2 then 1 else if val = 3 then 3 else 0))"

text \<open>\<^verbatim>\<open>demodulate\<close> writes into the caller's array \<^verbatim>\<open>bits_out\<close> and returns it.\<close>

fun demodulate :: "modem \<Rightarrow> real \<Rightarrow> int list \<Rightarrow> int list" where
  "demodulate Ask2Modem r bits_out = bits_out[0 := (if r < 0 then 1 else 0)]"
| "demodulate (Ask4Modem mp) r bits_out =
     (let sym = (if r < - 2 then 0 else if r < 0 then 1 else if r < 2 then 2 else (3::nat))
      in if mp = Gray
         then (if sym = 0 then bits_out[0 := 0, 1 := 0]
               else if sym = 1 then bits_out[0 := 0, 1 := 1]
               else if sym = 2 then bits_out[0 := 1, 1 := 1]
               else bits_out[0 := 1, 1 := 0])
         else (if sym = 0 then bits_out[0 := 0, 1 := 0]
               else if sym = 1 then bits_out[0 := 0, 1 := 1]
               else if sym = 2 then bits_out[0 := 1, 1 := 0]
               else bits_out[0 := 1, 1 := 1]))"

subsection \<open>The arithmetic of \<^verbatim>\<open>double\<close>\<close>

text \<open>
  IEEE 754 binary64 with the default rounding, to nearest and ties to even, on the
  reals: \<open>rne x\<close> is the double nearest to \<open>x\<close>. Around \<open>x\<close> the doubles are the integer
  multiples of \<open>ulp x\<close>, which is \<open>2^(e - 52)\<close> in the binade \<open>2^e \<le> |x| < 2^(e + 1)\<close> and
  \<open>2^-1074\<close> below \<open>2^-1022\<close> (the subnormal range). Each operation of the source on
  doubles is the exact operation followed by \<open>rne\<close>; \<open>to_double\<close> is the conversion
  \<^verbatim>\<open>(double)\<close> of a counter. Overflow to infinity is left out (no quantity below
  comes near \<open>2^1024\<close>), and so is the sign of zero; the one NaN that the Wilson
  interval can produce is modelled there.
\<close>

definition round_even :: "real \<Rightarrow> int" where
  "round_even q =
     (let f = \<lfloor>q\<rfloor>; d = q - of_int f
      in if d < 1 / 2 then f else if d > 1 / 2 then f + 1 else if even f then f else f + 1)"

definition expo :: "real \<Rightarrow> int" where
  "expo x = max \<lfloor>log 2 \<bar>x\<bar>\<rfloor> (- 1022)"

definition ulp :: "real \<Rightarrow> real" where
  "ulp x = 2 powr (of_int (expo x) - 52)"

definition rne :: "real \<Rightarrow> real" where
  "rne x = (if x = 0 then 0 else of_int (round_even (x / ulp x)) * ulp x)"

definition fadd :: "real \<Rightarrow> real \<Rightarrow> real" where "fadd a b = rne (a + b)"
definition fsub :: "real \<Rightarrow> real \<Rightarrow> real" where "fsub a b = rne (a - b)"
definition fmul :: "real \<Rightarrow> real \<Rightarrow> real" where "fmul a b = rne (a * b)"
definition fdiv :: "real \<Rightarrow> real \<Rightarrow> real" where "fdiv a b = rne (a / b)"
definition fsqrt :: "real \<Rightarrow> real" where "fsqrt x = rne (sqrt x)"
definition to_double :: "nat \<Rightarrow> real" where "to_double k = rne (real k)"

subsection \<open>simulation.cpp: the Wilson score interval\<close>

text \<open>
  Lines 53 to 62, operation by operation. The argument of \<^verbatim>\<open>std::sqrt\<close> is negative
  only when \<open>errs > bits\<close>; then \<^verbatim>\<open>rad\<close> is NaN, \<^verbatim>\<open>std::max(0.0, NaN)\<close> is \<open>0\<close> and
  \<^verbatim>\<open>std::min(1.0, NaN)\<close> is \<open>1\<close>. The half-width is \<open>None\<close> when it is NaN.
\<close>

definition wilson_ci :: "nat \<Rightarrow> nat \<Rightarrow> real \<Rightarrow> real \<times> real \<times> real option" where
  "wilson_ci errs bits z =
     (if bits = 0 then (0, 1, Some 0.5)
      else let n = to_double bits; p = fdiv (to_double errs) n; z2 = fmul z z;
               denom = fadd 1 (fdiv z2 n);
               center = fdiv (fadd p (fdiv z2 (fmul 2 n))) denom;
               v = fadd (fdiv (fmul p (fsub 1 p)) n) (fdiv z2 (fmul (fmul 4 n) n))
           in if v < 0 then (0, 1, None)
              else let rad = fdiv (fmul z (fsqrt v)) denom
                   in (max 0 (fsub center rad), min 1 (fadd center rad), Some rad))"

text \<open>The test \<^verbatim>\<open>half <= x\<close>: a comparison with NaN is false.\<close>

definition half_le :: "real option \<Rightarrow> real \<Rightarrow> bool" where
  "half_le h x = (case h of None \<Rightarrow> False | Some w \<Rightarrow> w \<le> x)"

subsection \<open>coder.hpp: the two coders\<close>

datatype coder = Uncoded | ConvK7R12

fun coder_encode :: "coder \<Rightarrow> int list \<Rightarrow> int list" where
  "coder_encode Uncoded u = u"
| "coder_encode ConvK7R12 u = encode u"

fun coder_decode :: "coder \<Rightarrow> int list \<Rightarrow> int list" where
  "coder_decode Uncoded c_hat = c_hat"
| "coder_decode ConvK7R12 c_hat = decode c_hat"

text \<open>Neither coder overrides \<^verbatim>\<open>supports_soft\<close> or \<^verbatim>\<open>decode_soft\<close> of \<^verbatim>\<open>ICoder\<close>.\<close>

fun supports_soft :: "coder \<Rightarrow> bool" where
  "supports_soft cd = False"

fun decode_soft :: "coder \<Rightarrow> real list \<Rightarrow> int list" where
  "decode_soft cd Lch = []"

fun rate :: "coder \<Rightarrow> real" where
  "rate Uncoded = 1"
| "rate ConvK7R12 = 0.5"

subsection \<open>modem.hpp: soft demodulation\<close>

fun demodulate_llr :: "modem \<Rightarrow> real \<Rightarrow> real \<Rightarrow> real list \<Rightarrow> real list" where
  "demodulate_llr Ask2Modem r sigma2 L = L[0 := 2 * r / sigma2]"
| "demodulate_llr (Ask4Modem mp) r sigma2 L =
     (let d0 = exp (- ((r + 3) ^ 2) / (2 * sigma2));
          d1 = exp (- ((r + 1) ^ 2) / (2 * sigma2));
          d2 = exp (- ((r - 1) ^ 2) / (2 * sigma2));
          d3 = exp (- ((r - 3) ^ 2) / (2 * sigma2))
      in if mp = Gray
         then L[0 := ln ((d0 + d1) / (d2 + d3)), 1 := ln ((d0 + d3) / (d1 + d2))]
         else L[0 := ln ((d0 + d1) / (d2 + d3)), 1 := ln ((d0 + d2) / (d1 + d3))])"

subsection \<open>channel.cpp\<close>

text \<open>
  The generator and its distributions, as parameters: \<open>bernoulli\<close> is
  \<^verbatim>\<open>bernoulli_distribution(0.5)\<close>, \<open>normal\<close> a standard normal draw (a draw of
  \<^verbatim>\<open>normal_distribution(0, sigma)\<close> is \<open>sigma\<close> times it), \<open>seed_rng\<close> the constructor
  \<^verbatim>\<open>mt19937_64(seed)\<close> and \<open>next_u64\<close> the call \<^verbatim>\<open>rng()\<close>.
\<close>

record 'g rng_ops =
  bernoulli :: "'g \<Rightarrow> bool \<times> 'g"
  normal :: "'g \<Rightarrow> real \<times> 'g"
  seed_rng :: "64 word \<Rightarrow> 'g"
  next_u64 :: "'g \<Rightarrow> 64 word \<times> 'g"

datatype channel = AwgnChannel | RayleighChannel

record ChannelOutput =
  y :: real
  gain :: real

fun transmit :: "'g rng_ops \<Rightarrow> channel \<Rightarrow> real \<Rightarrow> 'g \<Rightarrow> real \<Rightarrow> ChannelOutput \<times> 'g" where
  "transmit ops AwgnChannel s rng sigma =
     (case normal ops rng of (n, rng') \<Rightarrow> (\<lparr>y = s + sigma * n, gain = 1\<rparr>, rng'))"
| "transmit ops RayleighChannel s rng sigma =
     (case normal ops rng of (g, rng') \<Rightarrow>
        let h = \<bar>g\<bar> in (\<lparr>y = h * s, gain = h\<rparr>, rng'))"

subsection \<open>simulation.cpp: the engine\<close>

text \<open>
  The arguments of \<^verbatim>\<open>simulate_framewise\<close>. \<open>crit_z\<close> is the critical value \<open>z\<close> that
  line 87 computes once from \<^verbatim>\<open>ci_level\<close>: Acklam's approximation at \<open>1 - alpha/2\<close>
  when \<^verbatim>\<open>ci_level\<close> is in \<open>(0,1)\<close>, and \<open>0\<close> otherwise.
\<close>

record sim_params =
  ebn0_db :: real
  min_errors :: nat
  max_bits :: nat
  frame_len_bits :: int
  the_modem :: modem
  the_channel :: channel
  the_coder :: coder
  crit_z :: real
  ci_abs :: real
  ci_rel :: real
  ci_min_bits :: nat
  n_threads :: nat
  ber_floor :: real

record BerResult =
  ber :: real
  bits :: nat
  errs :: nat
  ci_lo :: real
  ci_hi :: real

definition noise_sigma :: "sim_params \<Rightarrow> real" where
  "noise_sigma P =
     (let R = rate (the_coder P);
          m = real (bits_per_symbol (the_modem P));
          Es = symbol_energy (the_modem P);
          ebn0_lin = 10 powr (ebn0_db P / 10);
          N0 = Es / (R * m * ebn0_lin)
      in sqrt (0.5 * N0))"

definition ci_goals_met :: "sim_params \<Rightarrow> nat \<Rightarrow> nat \<Rightarrow> bool" where
  "ci_goals_met P bts ers =
     (if ci_abs P \<le> 0 \<and> ci_rel P \<le> 0 then True
      else if bts = 0 \<or> bts < ci_min_bits P then False
      else case wilson_ci ers bts (crit_z P) of (lo, hi, half) \<Rightarrow>
        let p = (if bts > 0 then real ers / real bts else 0);
            ok_abs = (ci_abs P \<le> 0 \<or> half_le half (ci_abs P));
            ok_rel = (ci_rel P \<le> 0 \<or> half_le half (ci_rel P * max p (1 / 10 ^ 12)))
        in ok_abs \<and> ok_rel)"

definition floor_met :: "sim_params \<Rightarrow> nat \<Rightarrow> nat \<Rightarrow> bool" where
  "floor_met P bts ers =
     (if ber_floor P \<le> 0 then False
      else if bts = 0 \<or> bts < ci_min_bits P then False
      else case wilson_ci ers bts (crit_z P) of (lo, hi, half) \<Rightarrow> hi \<le> ber_floor P)"

text \<open>Lines 206 to 209: the decision taken on the snapshots after publishing.\<close>

definition worker_stop :: "sim_params \<Rightarrow> nat \<Rightarrow> nat \<Rightarrow> bool" where
  "worker_stop P bits_after errs_after =
     (let stop_by_max = (max_bits P > 0 \<and> bits_after \<ge> max_bits P);
          stop_by_floor = floor_met P bits_after errs_after;
          stop_by_ci = ((min_errors P = 0 \<or> errs_after \<ge> min_errors P)
                         \<and> ci_goals_met P bits_after errs_after)
      in stop_by_max \<or> stop_by_floor \<or> stop_by_ci)"

text \<open>Step 1 of the frame: \<^verbatim>\<open>frame_len_bits\<close> Bernoulli draws.\<close>

fun gen_bits :: "'g rng_ops \<Rightarrow> nat \<Rightarrow> 'g \<Rightarrow> int list \<times> 'g" where
  "gen_bits ops 0 trng = ([], trng)"
| "gen_bits ops (Suc n) trng =
     (case bernoulli ops trng of (b, trng1) \<Rightarrow>
        case gen_bits ops n trng1 of (bs, trng2) \<Rightarrow> ((if b then 1 else 0) # bs, trng2))"

text \<open>The zero-padded 8-slot group \<^verbatim>\<open>inbits\<close> at offset \<open>i\<close>.\<close>

definition load_inbits :: "int list \<Rightarrow> nat \<Rightarrow> nat \<Rightarrow> int list" where
  "load_inbits c i mbs =
     foldl (\<lambda>a k. if i + k < length c then a[k := c ! (i + k)] else a) (replicate 8 0) [0..<mbs]"

text \<open>The loops \<^verbatim>\<open>for k < mbs: if (i + k < c.size()) v.push_back(a[k])\<close>.\<close>

definition push_group :: "'a list \<Rightarrow> nat \<Rightarrow> nat \<Rightarrow> nat \<Rightarrow> 'a list \<Rightarrow> 'a list" where
  "push_group a n i mbs v =
     foldl (\<lambda>acc k. if i + k < n then acc @ [a ! k] else acc) v [0..<mbs]"

text \<open>
  The coherent equalisation of lines 167 to 169: the triple \<open>(g, r_eq, sigma2_eq)\<close>.
\<close>

definition equalize :: "ChannelOutput \<Rightarrow> real \<Rightarrow> real \<times> real \<times> real" where
  "equalize ch sigma =
     (let g = (if gain ch > 0 then gain ch else 1);
          r_eq = (if gain ch > 0 then y ch / gain ch else y ch);
          sigma2_eq = (sigma * sigma) / (g * g)
      in (g, r_eq, sigma2_eq))"

text \<open>
  One pass of the body of \<^verbatim>\<open>while (i < c.size())\<close>, without the increment of \<open>i\<close>:
  the state is \<open>(c_hat, llr, trng)\<close>.
\<close>

definition symbol_step ::
  "'g rng_ops \<Rightarrow> sim_params \<Rightarrow> real \<Rightarrow> int list \<Rightarrow> nat \<Rightarrow> int list \<times> real list \<times> 'g
     \<Rightarrow> int list \<times> real list \<times> 'g" where
  "symbol_step ops P sigma c i st =
     (case st of (c_hat, llr, trng) \<Rightarrow>
        let mbs = bits_per_symbol (the_modem P);
            inbits = load_inbits c i mbs;
            s = modulate (the_modem P) inbits
        in case transmit ops (the_channel P) s trng sigma of (ch, trng') \<Rightarrow>
             case equalize ch sigma of (g, r_eq, sigma2_eq) \<Rightarrow>
               if supports_soft (the_coder P)
               then let L = demodulate_llr (the_modem P) r_eq sigma2_eq (replicate 8 0)
                    in (c_hat, push_group L (length c) i mbs llr, trng')
               else let outbits = demodulate (the_modem P) r_eq (replicate 8 0)
                    in (push_group outbits (length c) i mbs c_hat, llr, trng'))"

function chain_loop ::
  "'g rng_ops \<Rightarrow> sim_params \<Rightarrow> real \<Rightarrow> int list \<Rightarrow> nat \<Rightarrow> int list \<times> real list \<times> 'g
     \<Rightarrow> int list \<times> real list \<times> 'g" where
  "chain_loop ops P sigma c i st =
     (if i < length c
      then chain_loop ops P sigma c (i + bits_per_symbol (the_modem P)) (symbol_step ops P sigma c i st)
      else st)"
  by pat_completeness auto
termination
  by (relation "measure (\<lambda>(ops, P, sigma, c, i, st). length c - i)")
     (auto, case_tac "the_modem P", auto)

text \<open>Step 5: the compared length \<open>L\<close> and the error count of one frame.\<close>

definition count_errors :: "int list \<Rightarrow> int list \<Rightarrow> nat \<times> nat" where
  "count_errors u u_hat =
     (let L = min (length u) (length u_hat)
      in (L, foldl (\<lambda>e j. e + (if u ! j \<noteq> u_hat ! j then 1 else 0)) 0 [0..<L]))"

text \<open>
  One frame of a worker, steps 1 to 5: returns \<open>(L, local_err)\<close> and the worker's
  generator afterwards.
\<close>

definition frame_body :: "'g rng_ops \<Rightarrow> sim_params \<Rightarrow> 'g \<Rightarrow> (nat \<times> nat) \<times> 'g" where
  "frame_body ops P trng =
     (case gen_bits ops (nat (frame_len_bits P)) trng of (u, trng1) \<Rightarrow>
        let c = coder_encode (the_coder P) u
        in case chain_loop ops P (noise_sigma P) c 0 ([], [], trng1) of (c_hat, llr, trng2) \<Rightarrow>
             let u_hat = (if supports_soft (the_coder P) then decode_soft (the_coder P) llr
                          else coder_decode (the_coder P) c_hat)
             in (count_errors u u_hat, trng2))"

text \<open>
  The shared atomics, and where each worker stands between two atomic operations:
  before \<^verbatim>\<open>stop.load\<close> (\<open>Top\<close>), after reading \<open>false\<close> and before the \<^verbatim>\<open>fetch_add\<close>
  on \<^verbatim>\<open>total_bits\<close> (\<open>Loaded\<close>), between the two \<^verbatim>\<open>fetch_add\<close>s with its snapshot
  \<open>bits_after\<close> and its \<open>local_err\<close> (\<open>AddedBits\<close>), before \<^verbatim>\<open>stop.store(true)\<close>
  (\<open>Storing\<close>), and returned (\<open>Exited\<close>).
\<close>

record shared =
  total_bits :: nat
  total_err :: nat
  stop :: bool

datatype 'g wstate = Top 'g | Loaded 'g | AddedBits 'g nat nat | Storing | Exited

type_synonym 'g engine = "shared \<times> 'g wstate list"

text \<open>
  The next atomic operation of worker \<open>tid\<close>, with the thread-local computation that
  precedes it. Atomic operations are interleaved in one total order.
\<close>

definition worker_step :: "'g rng_ops \<Rightarrow> sim_params \<Rightarrow> 'g engine \<Rightarrow> nat \<Rightarrow> 'g engine" where
  "worker_step ops P st tid =
     (case st of (sh, ws) \<Rightarrow>
        if tid \<ge> length ws then st
        else case ws ! tid of
          Top trng \<Rightarrow>
            if stop sh then (sh, ws[tid := Exited]) else (sh, ws[tid := Loaded trng])
        | Loaded trng \<Rightarrow>
            (case frame_body ops P trng of ((L, local_err), trng') \<Rightarrow>
               let bits_after = total_bits sh + L
               in (sh\<lparr>total_bits := bits_after\<rparr>, ws[tid := AddedBits trng' bits_after local_err]))
        | AddedBits trng bits_after local_err \<Rightarrow>
            let errs_after = total_err sh + local_err;
                sh' = sh\<lparr>total_err := errs_after\<rparr>
            in if worker_stop P bits_after errs_after
               then (sh', ws[tid := Storing])
               else (sh', ws[tid := Top trng])
        | Storing \<Rightarrow> (sh\<lparr>stop := True\<rparr>, ws[tid := Exited])
        | Exited \<Rightarrow> st)"

text \<open>The thread count in force: \<open>hw\<close> is \<^verbatim>\<open>hardware_concurrency()\<close>.\<close>

definition threads :: "sim_params \<Rightarrow> nat \<Rightarrow> nat" where
  "threads P hw = (if n_threads P = 0 then (if hw = 0 then 1 else hw) else n_threads P)"

definition seeds :: "64 word \<Rightarrow> nat \<Rightarrow> 64 word list" where
  "seeds base n =
     map (\<lambda>t. base XOR (0x9E3779B97F4A7C15 * ucast ((word_of_nat t :: 32 word) + 1))) [0..<n]"

definition engine_init :: "'g rng_ops \<Rightarrow> sim_params \<Rightarrow> nat \<Rightarrow> 'g \<Rightarrow> 'g engine \<times> 'g" where
  "engine_init ops P hw rng =
     (case next_u64 ops rng of (base, rng') \<Rightarrow>
        ((\<lparr>total_bits = 0, total_err = 0, stop = False\<rparr>,
          map (\<lambda>sd. Top (seed_rng ops sd)) (seeds base (threads P hw))), rng'))"

text \<open>Lines 224 to 229: the aggregate interval and the returned record.\<close>

definition ber_result :: "sim_params \<Rightarrow> shared \<Rightarrow> BerResult" where
  "ber_result P sh =
     (case (if (ci_abs P > 0 \<or> ci_rel P > 0) \<and> total_bits sh > 0 \<and> crit_z P > 0
            then wilson_ci (total_err sh) (total_bits sh) (crit_z P)
            else (0, 0, Some 0)) of
        (lo, hi, half) \<Rightarrow>
          \<lparr>ber = (if total_bits sh > 0
                  then fdiv (to_double (total_err sh)) (to_double (total_bits sh)) else 0),
           bits = total_bits sh, errs = total_err sh, ci_lo = lo, ci_hi = hi\<rparr>)"

definition finished :: "'g engine \<Rightarrow> bool" where
  "finished st = list_all (\<lambda>w. w = Exited) (snd st)"

text \<open>
  \<^verbatim>\<open>simulate_framewise\<close> under a schedule, the order in which the workers perform their
  atomic operations. It returns once every worker has been joined; a schedule that
  leaves a worker running gives \<open>None\<close>. The caller's generator is returned advanced
  by the one draw of \<open>base\<close>.
\<close>

definition simulate_framewise ::
  "'g rng_ops \<Rightarrow> sim_params \<Rightarrow> nat \<Rightarrow> 'g \<Rightarrow> nat list \<Rightarrow> (BerResult \<times> 'g) option" where
  "simulate_framewise ops P hw rng sched =
     (case engine_init ops P hw rng of (st0, rng') \<Rightarrow>
        let st = foldl (worker_step ops P) st0 sched
        in if finished st then Some (ber_result P (fst st), rng') else None)"

subsection \<open>main.cpp: the sweep\<close>

text \<open>Lines 203 to 209: the test that ends the sweep after a point.\<close>

definition sweep_break :: "real \<Rightarrow> BerResult \<Rightarrow> bool" where
  "sweep_break flr r =
     (let ber_for_stop = (if ci_hi r > 0 then ci_hi r else ber r)
      in flr > 0 \<and> ber_for_stop \<le> flr)"

text \<open>
  The loop \<^verbatim>\<open>for (int i = 0; i < n; ++i)\<close> over the grid, given one schedule per point:
  the records written to the sink, in order. \<open>P\<close> carries the configuration; its
  \<open>ebn0_db\<close> is set at each point.
\<close>

fun sweep ::
  "'g rng_ops \<Rightarrow> sim_params \<Rightarrow> nat \<Rightarrow> real \<Rightarrow> real \<Rightarrow> int \<Rightarrow> int \<Rightarrow> 'g \<Rightarrow> nat list list
     \<Rightarrow> (real \<times> BerResult) list option" where
  "sweep ops P hw start step n i rng [] = (if i < n then None else Some [])"
| "sweep ops P hw start step n i rng (sched # rest) =
     (if i < n
      then let snr_db = start + real_of_int i * step
           in case simulate_framewise ops (P\<lparr>ebn0_db := snr_db\<rparr>) hw rng sched of
                None \<Rightarrow> None
              | Some (r, rng') \<Rightarrow>
                  if sweep_break (ber_floor P) r then Some [(snr_db, r)]
                  else map_option ((#) (snr_db, r)) (sweep ops P hw start step n (i + 1) rng' rest)
      else Some [])"

subsection \<open>The stop predicates as the specification words them\<close>




text \<open>\<^verbatim>\<open>make_seed\<close> of \<^verbatim>\<open>utils.cpp\<close>: \<open>t\<close> is the clock reading and \<open>rd\<close> the value of
  \<^verbatim>\<open>std::random_device\<close>.\<close>

definition make_seed :: "64 word \<Rightarrow> 64 word \<Rightarrow> 32 word \<Rightarrow> 64 word" where
  "make_seed requested t rd = (if requested \<noteq> 0 then requested else t XOR push_bit 1 (ucast rd))"

text \<open>\<^verbatim>\<open>main\<close>: seeding, the number of grid points and the sweep.\<close>

definition main_records ::
  "'g rng_ops \<Rightarrow> 64 word \<Rightarrow> 64 word \<Rightarrow> 32 word \<Rightarrow> sim_params \<Rightarrow> nat \<Rightarrow> real \<Rightarrow> real \<Rightarrow> real
     \<Rightarrow> nat list list \<Rightarrow> (real \<times> BerResult) list option" where
  "main_records ops seed t rd P hw start_db stop_db step_db scheds =
     (let rng = seed_rng ops (make_seed seed t rd);
          n = \<lfloor>(stop_db - start_db) / step_db + 0.5\<rfloor> + 1
      in sweep ops P hw start_db step_db n 0 rng scheds)"


subsection \<open>Invariants of the engine\<close>

text \<open>
  The errors a worker has counted but not yet added to \<^verbatim>\<open>total_err\<close>, and the two
  invariants of the shared counters: errors, pending ones included, never exceed
  bits; and the bit total is a multiple of the frame length \<open>F\<close>, at least \<open>F\<close> once
  some worker is past its first \<^verbatim>\<open>fetch_add\<close> or the stop flag is set.
\<close>

fun pending :: "'g wstate \<Rightarrow> nat" where
  "pending (AddedBits trng bits_after local_err) = local_err"
| "pending w = 0"

definition errs_inv :: "'g engine \<Rightarrow> bool" where
  "errs_inv st \<longleftrightarrow> total_err (fst st) + sum_list (map pending (snd st)) \<le> total_bits (fst st)"

fun early :: "'g wstate \<Rightarrow> bool" where
  "early (Top trng) = True"
| "early (Loaded trng) = True"
| "early w = False"

definition frames_inv :: "nat \<Rightarrow> 'g engine \<Rightarrow> bool" where
  "frames_inv F st \<longleftrightarrow>
     F dvd total_bits (fst st)
     \<and> (stop (fst st) \<or> (\<exists>i < length (snd st). \<not> early (snd st ! i)) \<longrightarrow> F \<le> total_bits (fst st))"


subsection \<open>Invariants of the Viterbi decoder\<close>

text \<open>The branch metric \<^verbatim>\<open>dist\<close> of the decoder, as a function of \<^verbatim>\<open>ref\<close> and \<^verbatim>\<open>r\<close>.\<close>

definition hamming :: "int \<Rightarrow> int \<Rightarrow> int" where
  "hamming ref r = ((drop_bit 1 ref AND 1) XOR (drop_bit 1 r AND 1)) + ((ref AND 1) XOR (r AND 1))"

text \<open>
  The encoder's register after the bits \<open>bs\<close>, and the trellis state the encoder is in
  after \<open>t\<close> of them. \<open>acs_inv\<close> is the invariant of the inner loop at time \<open>t\<close>, where
  \<open>sp\<close> is the encoder's state before the step, \<open>bp\<close> its input bit and \<open>ns\<close> its state
  after it: every metric off \<open>ns\<close> is at least 1, earlier rows of \<^verbatim>\<open>pred\<close> and \<^verbatim>\<open>dec\<close>
  are untouched, and once state \<open>sp\<close> has been processed (\<open>fin\<close>) the metric of \<open>ns\<close>
  is 0 with survivor \<open>(sp, bp)\<close>. \<open>path_inv\<close> is the invariant of the outer loop.
\<close>

definition reg :: "int list \<Rightarrow> 32 word" where
  "reg bs = fst (foldl push (0, []) bs)"

definition tstate :: "int list \<Rightarrow> nat \<Rightarrow> nat" where
  "tstate bs t = unat (reg (take t bs) AND 63)"

definition acs_inv :: "nat \<Rightarrow> nat \<Rightarrow> nat \<Rightarrow> int \<Rightarrow> int list \<Rightarrow> int list \<Rightarrow> bool \<Rightarrow> vit \<Rightarrow> bool" where
  "acs_inv t sp ns bp pred0 dec0 fin st =
     (case st of (pm_c, pd, dc) \<Rightarrow>
        length pm_c = 64 \<and> length pd = length pred0 \<and> length dc = length dec0
        \<and> (\<forall>s<64. s \<noteq> ns \<longrightarrow> 1 \<le> pm_c ! s)
        \<and> (\<forall>i < t * 64. pd ! i = pred0 ! i \<and> dc ! i = dec0 ! i)
        \<and> (if fin then pm_c ! ns = 0 \<and> pd ! (t * 64 + ns) = int sp \<and> dc ! (t * 64 + ns) = bp
           else 1 \<le> pm_c ! ns))"

definition path_inv :: "int list \<Rightarrow> nat \<Rightarrow> nat \<Rightarrow> vit \<Rightarrow> bool" where
  "path_inv bs N t st =
     (case st of (pm, pd, dc) \<Rightarrow>
        length pm = 64 \<and> length pd = N * 64 \<and> length dc = N * 64
        \<and> pm ! tstate bs t = 0
        \<and> (\<forall>s<64. s \<noteq> tstate bs t \<longrightarrow> 1 \<le> pm ! s)
        \<and> (\<forall>t'<t. pd ! (t' * 64 + tstate bs (Suc t')) = int (tstate bs t')
                  \<and> dc ! (t' * 64 + tstate bs (Suc t')) = bs ! t'))"

subsection \<open>A small configuration to run\<close>

text \<open>
  A generator whose state is a counter: the Bernoulli draw is the parity of the state,
  the normal draw is always \<open>0\<close>. One-bit frames, stop at one bit, \<open>nt\<close> workers.
\<close>

definition demo_ops :: "nat rng_ops" where
  "demo_ops = \<lparr>bernoulli = (\<lambda>g. (odd g, g + 1)), normal = (\<lambda>g. (0, g + 1)),
               seed_rng = unat, next_u64 = (\<lambda>g. (word_of_nat g, g + 1))\<rparr>"

definition demo_params :: "nat \<Rightarrow> sim_params" where
  "demo_params nt = \<lparr>ebn0_db = 4, min_errors = 0, max_bits = 1, frame_len_bits = 1,
                     the_modem = Ask2Modem, the_channel = AwgnChannel, the_coder = Uncoded,
                     crit_z = 0, ci_abs = 0, ci_rel = 0, ci_min_bits = 0, n_threads = nt,
                     ber_floor = 1 / 2\<rparr>"


text \<open>
  The same generator with every normal draw equal to \<open>1/2\<close>, and the one-worker
  configuration on the Rayleigh channel.
\<close>

definition fading_ops :: "nat rng_ops" where
  "fading_ops = demo_ops\<lparr>normal := (\<lambda>g. (1 / 2, g + 1))\<rparr>"

definition fading_params :: sim_params where
  "fading_params = (demo_params 1)\<lparr>the_channel := RayleighChannel\<rparr>"


text \<open>
  A configuration whose interval is computed: frames of \<open>len\<close> bits, stop after one
  frame, one worker, an absolute half-width target, and for the critical value the
  double \<^verbatim>\<open>1.959963986120195\<close> (level 0.95). Every information bit drawn is \<open>0\<close> and
  every normal draw is \<open>-3/2\<close>, so on 2-ASK the observation is \<open>1 - 3/2 sigma\<close>: all
  bits of the frame are decided wrongly when \<open>sigma > 2/3\<close> and none otherwise.
\<close>

definition z975 :: real where
  "z975 = 4413446538775251 / 2251799813685248"

definition noisy_ops :: "nat rng_ops" where
  "noisy_ops = demo_ops\<lparr>bernoulli := (\<lambda>g. (False, g + 1)), normal := (\<lambda>g. (- 3 / 2, g + 1))\<rparr>"

definition ci_params :: "int \<Rightarrow> real \<Rightarrow> real \<Rightarrow> sim_params" where
  "ci_params len flr snr =
     \<lparr>ebn0_db = snr, min_errors = 0, max_bits = nat len, frame_len_bits = len,
      the_modem = Ask2Modem, the_channel = AwgnChannel, the_coder = Uncoded,
      crit_z = z975, ci_abs = 1 / 2, ci_rel = 0, ci_min_bits = 0, n_threads = 1,
      ber_floor = flr\<rparr>"

text \<open>
  The records of six bits with six errors and with none, and of a thousand bits
  with no error, under \<open>z975\<close>.
\<close>

definition six_of_six :: BerResult where
  "six_of_six = \<lparr>ber = 1, bits = 6, errs = 6,
                 ci_lo = 5491380544192575 / 9007199254740992,
                 ci_hi = 9007199254740991 / 9007199254740992\<rparr>"

definition none_of_six :: BerResult where
  "none_of_six = \<lparr>ber = 0, bits = 6, errs = 0,
                  ci_lo = 0, ci_hi = 7031637421096833 / 18014398509481984\<rparr>"


section \<open>The encoder's length law\<close>

lemma length_foldl_push:
  "length (snd (foldl push st bs)) = length (snd st) + 2 * length bs"
  by (induction bs arbitrary: st) (simp_all add: push_def Let_def)

text \<open>
  C8. For every input \<open>u\<close> of length \<open>n\<close>, \<open>ConvK7R12::encode\<close> produces exactly
  \<open>2 * (n + 6)\<close> coded bits: two per input bit and two per zero-termination bit.
\<close>

theorem encode_length: "length (encode u) = 2 * (length u + 6)"
  by (simp add: encode_def length_foldl_push M_def)

section \<open>Rounding to the nearest double\<close>

text \<open>
  Rounding is monotone and keeps signs; and \<open>rne x\<close> is computed from an integer \<open>m\<close>
  with \<open>2^52 \<le> m < 2^53\<close> and a scale \<open>k\<close> such that \<open>x * 2^k\<close> lies within one half
  of \<open>m\<close>.
\<close>

lemma round_even_cases: "round_even q = \<lfloor>q\<rfloor> \<or> round_even q = \<lfloor>q\<rfloor> + 1"
  by (simp add: round_even_def Let_def)

lemma round_even_mono:
  assumes "q \<le> q'"
  shows "round_even q \<le> round_even q'"
proof (cases "\<lfloor>q\<rfloor> = \<lfloor>q'\<rfloor>")
  case True
  with assms show ?thesis
    by (auto simp: round_even_def Let_def)
next
  case False
  with assms have "\<lfloor>q\<rfloor> < \<lfloor>q'\<rfloor>"
    using floor_mono [OF assms] by linarith
  moreover have "round_even q \<le> \<lfloor>q\<rfloor> + 1" "\<lfloor>q'\<rfloor> \<le> round_even q'"
    using round_even_cases [of q] round_even_cases [of q'] by auto
  ultimately show ?thesis by linarith
qed

lemma round_even_of_int: "round_even (of_int k) = k"
  by (simp add: round_even_def)

lemma round_even_near:
  assumes "of_int m - 1 / 2 < q" and "q < of_int m + 1 / 2"
  shows "round_even q = m"
proof -
  have "of_int (m - 1) \<le> q" "q < of_int (m + 1)"
    using assms by simp_all
  then have "m - 1 \<le> \<lfloor>q\<rfloor>" "\<lfloor>q\<rfloor> < m + 1"
    by (simp_all only: le_floor_iff floor_less_iff)
  then consider "\<lfloor>q\<rfloor> = m" | "\<lfloor>q\<rfloor> = m - 1"
    by linarith
  then show ?thesis
  proof cases
    case 1
    with assms show ?thesis by (simp add: round_even_def Let_def)
  next
    case 2
    with assms show ?thesis by (simp add: round_even_def Let_def)
  qed
qed

lemma ulp_pos: "0 < ulp x"
  by (simp add: ulp_def)

lemma round_even_0: "round_even 0 = 0"
  using round_even_of_int [of 0] by simp

lemma rne_nonneg:
  assumes "0 \<le> x"
  shows "0 \<le> rne x"
proof -
  have "0 \<le> x / ulp x"
    using assms ulp_pos [of x] by simp
  from round_even_mono [OF this] have "0 \<le> round_even (x / ulp x)"
    by (simp add: round_even_0)
  then show ?thesis
    using ulp_pos [of x] by (simp add: rne_def)
qed

lemma rne_nonpos:
  assumes "x \<le> 0"
  shows "rne x \<le> 0"
proof -
  have "x / ulp x \<le> 0"
    using assms ulp_pos [of x] by (simp add: divide_le_0_iff)
  from round_even_mono [OF this] have "round_even (x / ulp x) \<le> 0"
    by (simp add: round_even_0)
  then show ?thesis
    using ulp_pos [of x] by (simp add: rne_def mult_le_0_iff)
qed

lemma expo_mono:
  assumes "0 < x" "x \<le> x'"
  shows "expo x \<le> expo x'"
proof -
  have "log 2 \<bar>x\<bar> \<le> log 2 \<bar>x'\<bar>"
    using assms by simp
  then have "\<lfloor>log 2 \<bar>x\<bar>\<rfloor> \<le> \<lfloor>log 2 \<bar>x'\<bar>\<rfloor>"
    by (rule floor_mono)
  then show ?thesis
    by (simp add: expo_def)
qed

lemma below_next_binade:
  assumes "0 < x"
  shows "x < 2 powr (of_int (expo x) + 1)"
proof -
  have "log 2 x < of_int \<lfloor>log 2 x\<rfloor> + 1"
    by linarith
  also have "\<dots> \<le> of_int (expo x) + 1"
    using assms by (simp add: expo_def)
  finally have "2 powr log 2 x < 2 powr (of_int (expo x) + 1)"
    by simp
  then show ?thesis
    using assms by simp
qed

lemma above_binade:
  assumes "0 < x" and "- 1022 < expo x"
  shows "2 powr of_int (expo x) \<le> x"
proof -
  have "expo x = \<lfloor>log 2 x\<rfloor>"
    using assms by (simp add: expo_def max_def split: if_splits)
  then have "of_int (expo x) \<le> log 2 x"
    by simp
  then have "2 powr of_int (expo x) \<le> 2 powr log 2 x"
    by simp
  then show ?thesis
    using assms by simp
qed

lemma two_powr_53: "(2::real) powr 53 = of_int (2 ^ 53)" and two_powr_52: "(2::real) powr 52 = of_int (2 ^ 52)"
  by (simp_all add: powr_numeral)

lemma rne_upper:
  assumes "0 < x"
  shows "rne x \<le> 2 powr (of_int (expo x) + 1)"
proof -
  have "x / ulp x \<le> 2 powr (of_int (expo x) + 1) / ulp x"
    using below_next_binade [OF assms] ulp_pos [of x] by (simp add: divide_right_mono)
  also have "\<dots> = of_int (2 ^ 53)"
    unfolding ulp_def powr_diff [symmetric] by (simp only: two_powr_53 [symmetric]) simp
  finally have "round_even (x / ulp x) \<le> 2 ^ 53"
    using round_even_mono round_even_of_int by metis
  then have "of_int (round_even (x / ulp x)) * ulp x \<le> of_int (2 ^ 53) * ulp x"
    using ulp_pos [of x] by (intro mult_right_mono) simp_all
  also have "\<dots> = 2 powr (of_int (expo x) + 1)"
    unfolding ulp_def two_powr_53 [symmetric] powr_add [symmetric] by (simp add: add.commute)
  finally show ?thesis
    using assms by (simp add: rne_def)
qed

lemma rne_lower:
  assumes "0 < x" and "- 1022 < expo x"
  shows "2 powr of_int (expo x) \<le> rne x"
proof -
  have "2 powr of_int (expo x) / ulp x \<le> x / ulp x"
    using above_binade [OF assms] ulp_pos [of x] by (simp add: divide_right_mono)
  moreover have "2 powr of_int (expo x) / ulp x = of_int (2 ^ 52)"
    unfolding ulp_def powr_diff [symmetric] by (simp only: two_powr_52 [symmetric]) simp
  ultimately have "2 ^ 52 \<le> round_even (x / ulp x)"
    using round_even_mono round_even_of_int by metis
  then have "of_int (2 ^ 52) * ulp x \<le> of_int (round_even (x / ulp x)) * ulp x"
    using ulp_pos [of x] by (intro mult_right_mono) simp_all
  moreover have "of_int (2 ^ 52) * ulp x = 2 powr of_int (expo x)"
    unfolding ulp_def two_powr_52 [symmetric] powr_add [symmetric] by simp
  ultimately show ?thesis
    using assms by (simp add: rne_def)
qed

lemma rne_mono:
  assumes "0 \<le> x" and "x \<le> x'"
  shows "rne x \<le> rne x'"
proof (cases "x = 0")
  case True
  with assms rne_nonneg [of x'] show ?thesis
    by (simp add: rne_def)
next
  case False
  with assms have x: "0 < x" and x': "0 < x'" by simp_all
  have le: "expo x \<le> expo x'"
    using x assms(2) by (rule expo_mono)
  show ?thesis
  proof (cases "expo x = expo x'")
    case True
    then have u: "ulp x' = ulp x" by (simp add: ulp_def)
    have "x / ulp x \<le> x' / ulp x"
      using assms(2) ulp_pos [of x] by (simp add: divide_right_mono)
    from round_even_mono [OF this]
    have "of_int (round_even (x / ulp x)) * ulp x \<le> of_int (round_even (x' / ulp x)) * ulp x"
      using ulp_pos [of x] by (intro mult_right_mono) simp_all
    with x x' u show ?thesis
      by (simp add: rne_def)
  next
    case False
    with le have lt: "expo x + 1 \<le> expo x'" by simp
    moreover have "- 1022 \<le> expo x" by (simp add: expo_def)
    ultimately have "- 1022 < expo x'" by simp
    from rne_lower [OF x' this] have "2 powr of_int (expo x') \<le> rne x'" .
    moreover have "rne x \<le> 2 powr (of_int (expo x) + 1)"
      using x by (rule rne_upper)
    moreover have "(2::real) powr (of_int (expo x) + 1) \<le> 2 powr of_int (expo x')"
    proof -
      have "(of_int (expo x) + 1 :: real) \<le> of_int (expo x')"
        using lt by (metis of_int_1 of_int_add of_int_le_iff)
      then show ?thesis by simp
    qed
    ultimately show ?thesis by linarith
  qed
qed

lemma rne_eval:
  fixes k :: nat
  assumes lo: "2 ^ 52 \<le> x * 2 ^ k" and hi: "x * 2 ^ k < 2 ^ 53" and k: "k \<le> 1074"
    and r: "round_even (x * 2 ^ k) = m"
  shows "rne x = of_int m / 2 ^ k"
proof -
  have x: "0 < x"
  proof (rule ccontr)
    assume "\<not> 0 < x"
    then have "x * 2 ^ k \<le> 0" by (simp add: mult_le_0_iff)
    moreover have "(0::real) < 2 ^ 52" by simp
    ultimately show False using lo by linarith
  qed
  have p: "(2::real) powr (52 - of_nat k) = 2 ^ 52 / 2 ^ k"
    by (simp add: powr_diff powr_realpow)
  have p': "(2::real) powr (52 - of_nat k + 1) = 2 ^ 53 / 2 ^ k"
    by (simp add: powr_diff powr_add powr_realpow)
  have "2 powr (52 - of_nat k) \<le> x"
    unfolding p using lo by (simp add: field_simps)
  moreover have "x < 2 powr (52 - of_nat k + 1)"
    unfolding p' using hi by (simp add: field_simps)
  ultimately have "\<lfloor>log 2 x\<rfloor> = 52 - int k"
    using x by (simp add: floor_log_eq_powr_iff)
  then have e: "expo x = 52 - int k"
    using x k by (simp add: expo_def)
  have u: "ulp x = 1 / 2 ^ k"
    by (simp add: ulp_def e powr_minus powr_realpow divide_simps)
  show ?thesis
    using x r by (simp add: rne_def u)
qed

lemma rne_exact:
  fixes k :: nat
  assumes "2 ^ 52 \<le> x * 2 ^ k" and "x * 2 ^ k < 2 ^ 53" and "k \<le> 1074"
    and "x * 2 ^ k = of_int m"
  shows "rne x = x"
proof -
  have "round_even (x * 2 ^ k) = m"
    unfolding assms(4) by (rule round_even_of_int)
  from rne_eval [OF assms(1-3) this] have "rne x = of_int m / 2 ^ k" .
  also have "\<dots> = x"
    unfolding assms(4) [symmetric] by simp
  finally show ?thesis .
qed

lemma rne_1: "rne 1 = 1"
  by (rule rne_exact [where k = 52 and m = "2 ^ 52"]) simp_all

lemma rne_0: "rne 0 = 0"
  by (simp add: rne_def)

lemma round_even_tie:
  assumes "q = of_int f + 1 / 2"
  shows "round_even q = (if even f then f else f + 1)"
proof -
  have "\<lfloor>q\<rfloor> = f"
    unfolding assms by (rule floor_unique) simp_all
  then show ?thesis
    using assms by (simp add: round_even_def Let_def)
qed

lemma rne_near:
  fixes k :: nat
  assumes "2 ^ 52 < m" and "m < 2 ^ 53" and "k \<le> 1074"
    and lo: "of_int m - 1 / 2 < x * 2 ^ k" and hi: "x * 2 ^ k < of_int m + 1 / 2"
  shows "rne x = of_int m / 2 ^ k"
proof (rule rne_eval)
  have "2 ^ 52 + 1 \<le> m"
    using assms(1) by simp
  then have "(of_int (2 ^ 52 + 1) :: real) \<le> of_int m"
    by (simp only: of_int_le_iff)
  then have "(2::real) ^ 52 + 1 \<le> of_int m"
    by simp
  with lo show "2 ^ 52 \<le> x * 2 ^ k" by linarith
  have "m + 1 \<le> 2 ^ 53"
    using assms(2) by simp
  then have "(of_int (m + 1) :: real) \<le> of_int (2 ^ 53)"
    by (simp only: of_int_le_iff)
  then have "of_int m + 1 \<le> (2::real) ^ 53"
    by simp
  with hi show "x * 2 ^ k < 2 ^ 53" by linarith
  show "k \<le> 1074" by fact
  show "round_even (x * 2 ^ k) = m"
    using lo hi by (rule round_even_near)
qed

lemma rne_tie:
  fixes k :: nat
  assumes "2 ^ 52 \<le> f" and "f + 1 < 2 ^ 53" and "k \<le> 1074"
    and t: "x * 2 ^ k = of_int f + 1 / 2"
  shows "rne x = of_int (if even f then f else f + 1) / 2 ^ k"
proof (rule rne_eval)
  have "(of_int (2 ^ 52) :: real) \<le> of_int f"
    using assms(1) by (simp only: of_int_le_iff)
  then have "(2::real) ^ 52 \<le> of_int f"
    by simp
  with t show "2 ^ 52 \<le> x * 2 ^ k" by linarith
  have "f + 1 \<le> 2 ^ 53"
    using assms(2) by simp
  then have "(of_int (f + 1) :: real) \<le> of_int (2 ^ 53)"
    by (simp only: of_int_le_iff)
  then have "of_int f + 1 \<le> (2::real) ^ 53"
    by simp
  with t show "x * 2 ^ k < 2 ^ 53" by linarith
  show "k \<le> 1074" by fact
  show "round_even (x * 2 ^ k) = (if even f then f else f + 1)"
    using t by (rule round_even_tie)
qed

lemma rne_sqrt_near:
  fixes k :: nat
  assumes "2 ^ 52 < m" and "m < 2 ^ 53" and "k \<le> 1074" and "0 \<le> x"
    and lo': "(2 * of_int m - 1) * (2 * of_int m - 1) < 4 * (x * 4 ^ k)"
    and hi': "4 * (x * 4 ^ k) < (2 * of_int m + 1) * (2 * of_int m + 1)"
  shows "rne (sqrt x) = of_int m / 2 ^ k"
proof -
  have lo: "(of_int m - 1 / 2)\<^sup>2 < x * 4 ^ k"
    using lo' by (simp add: power2_eq_square algebra_simps)
  have hi: "x * 4 ^ k < (of_int m + 1 / 2)\<^sup>2"
    using hi' by (simp add: power2_eq_square algebra_simps)
  have m: "(0::real) \<le> of_int m - 1 / 2"
  proof -
    have "1 \<le> m"
      using assms(1) by simp
    then have "(1::real) \<le> of_int m"
      by simp
    then show ?thesis by simp
  qed
  have s: "sqrt x * 2 ^ k = sqrt (x * 4 ^ k)"
  proof -
    have "(4::real) ^ k = (2 ^ k)\<^sup>2"
      by (simp add: power_mult [symmetric] mult.commute power2_eq_square power_mult_distrib [symmetric])
    then show ?thesis
      by (simp add: real_sqrt_mult)
  qed
  have "of_int m - 1 / 2 < sqrt (x * 4 ^ k)"
    using lo by (rule real_less_rsqrt)
  moreover have "sqrt (x * 4 ^ k) < of_int m + 1 / 2"
    using m hi by (intro real_less_lsqrt) simp_all
  ultimately show ?thesis
    using assms(1-3) unfolding s [symmetric] by (intro rne_near) simp_all
qed

lemma to_double_0: "to_double 0 = 0"
  by (simp add: to_double_def rne_0)

lemma to_double_6: "to_double 6 = 6"
  using rne_exact [where x = 6 and m = 6755399441055744 and k = 50]
  by (simp add: to_double_def)


section \<open>Wilson on zero trials\<close>

text \<open>
  C9. For every error count and every critical value, the Wilson interval on zero
  trials is the full unit interval with half-width one half. The function is total:
  this case is an ordinary return value, not an error.
\<close>

theorem wilson_ci_zero_bits: "wilson_ci e 0 z = (0, 1, Some (1 / 2))"
  by (simp add: wilson_ci_def)

section \<open>The 4-ASK mapping tables\<close>

lemma ask4_val_cases:
  "push_bit 1 (0::int) OR 0 = 0" "push_bit 1 (0::int) OR 1 = 1"
  "push_bit 1 (1::int) OR 0 = 2" "push_bit 1 (1::int) OR 1 = 3"
  by simp_all

lemma ask4_modulate_table:
  "modulate (Ask4Modem Gray) [0, 0] = - 3" "modulate (Ask4Modem Gray) [0, 1] = - 1"
  "modulate (Ask4Modem Gray) [1, 1] = 1" "modulate (Ask4Modem Gray) [1, 0] = 3"
  "modulate (Ask4Modem Natural) [0, 0] = - 3" "modulate (Ask4Modem Natural) [0, 1] = - 1"
  "modulate (Ask4Modem Natural) [1, 0] = 1" "modulate (Ask4Modem Natural) [1, 1] = 3"
  by (simp_all add: ask4_val_cases)

lemma ask4_roundtrip:
  assumes "b0 \<in> {0, 1}" "b1 \<in> {0, 1}"
  shows "take 2 (demodulate (Ask4Modem mp) (modulate (Ask4Modem mp) [b0, b1]) (replicate 8 0))
           = [b0, b1]"
proof (cases mp)
  case Gray
  with assms show ?thesis
    by (auto simp: ask4_modulate_table numeral_eq_Suc)
next
  case Natural
  with assms show ?thesis
    by (auto simp: ask4_modulate_table numeral_eq_Suc)
qed

lemma ask4_bij:
  "bij_betw (\<lambda>(b0, b1). modulate (Ask4Modem mp) [b0, b1]) ({0, 1} \<times> {0, 1}) {- 3, - 1, 1, 3}"
proof -
  have prod: "{0, 1} \<times> {0, 1} = {(0::int, 0::int), (0, 1), (1, 0), (1, 1)}"
    by auto
  show ?thesis
    unfolding bij_betw_def prod
    by (cases mp) (auto simp: ask4_modulate_table inj_on_def)
qed

text \<open>
  C6. For each 4-ASK mapping, Gray and Natural, the modulator restricted to bit pairs
  is a bijection between \<open>{0,1} \<times> {0,1}\<close> and the alphabet \<open>{-3, -1, +1, +3}\<close>, it
  realises the table of the specification, and hard demodulation of the exact symbol
  gives back the two bits (the engine hands \<^verbatim>\<open>demodulate\<close> an 8-slot zeroed array and
  reads its first two slots).
\<close>

theorem ask4_mapping_bijection_roundtrip:
  "bij_betw (\<lambda>(b0, b1). modulate (Ask4Modem mp) [b0, b1]) ({0, 1} \<times> {0, 1}) {- 3, - 1, 1, 3}
   \<and> (\<forall>b0 \<in> {0, 1}. \<forall>b1 \<in> {0, 1}.
        take 2 (demodulate (Ask4Modem mp) (modulate (Ask4Modem mp) [b0, b1]) (replicate 8 0))
          = [b0, b1])
   \<and> map (modulate (Ask4Modem Gray)) [[0, 0], [0, 1], [1, 1], [1, 0]] = [- 3, - 1, 1, 3]
   \<and> map (modulate (Ask4Modem Natural)) [[0, 0], [0, 1], [1, 0], [1, 1]] = [- 3, - 1, 1, 3]"
  using ask4_bij [of mp] ask4_roundtrip [of _ _ mp]
  by (simp add: ask4_modulate_table)

theorem ask4_mapping_bijection_roundtrip_witness:
  "take 2 (demodulate (Ask4Modem Gray) (modulate (Ask4Modem Gray) [1, 0]) (replicate 8 0)) = [1, 0]
   \<and> take 2 (demodulate (Ask4Modem Natural) (modulate (Ask4Modem Natural) [1, 0]) (replicate 8 0)) = [1, 0]"
  using ask4_mapping_bijection_roundtrip [of Gray] ask4_mapping_bijection_roundtrip [of Natural]
  by simp

section \<open>Noiseless Viterbi decoding\<close>

subsection \<open>The trellis tables and the branch metric\<close>

lemma NSTATE_64: "NSTATE = 64"
  by (simp add: NSTATE_def M_def)

lemma trellis_table:
  "list_all (\<lambda>s. nxt (trans_entry s 0) < 64 \<and> nxt (trans_entry s 1) < 64
                \<and> nxt (trans_entry s 0) \<noteq> nxt (trans_entry s 1)
                \<and> out (trans_entry s 0) \<noteq> out (trans_entry s 1)
                \<and> out (trans_entry s 0) \<in> {0, 1, 2, 3} \<and> out (trans_entry s 1) \<in> {0, 1, 2, 3})
     [0..<64]"
  by (simp add: upt_rec trans_entry_def parity32_def p4_def G0_def G1_def M_def)

lemma trellis_facts:
  assumes "s < 64"
  shows "nxt (trans_entry s 0) < 64" "nxt (trans_entry s 1) < 64"
    "nxt (trans_entry s 0) \<noteq> nxt (trans_entry s 1)"
    "out (trans_entry s 0) \<noteq> out (trans_entry s 1)"
    "out (trans_entry s 0) \<in> {0, 1, 2, 3}" "out (trans_entry s 1) \<in> {0, 1, 2, 3}"
proof -
  have "s \<in> set [0..<64]" using assms by simp
  with trellis_table
  have "nxt (trans_entry s 0) < 64 \<and> nxt (trans_entry s 1) < 64
                \<and> nxt (trans_entry s 0) \<noteq> nxt (trans_entry s 1)
                \<and> out (trans_entry s 0) \<noteq> out (trans_entry s 1)
                \<and> out (trans_entry s 0) \<in> {0, 1, 2, 3} \<and> out (trans_entry s 1) \<in> {0, 1, 2, 3}"
    unfolding list_all_iff by blast
  then show "nxt (trans_entry s 0) < 64" "nxt (trans_entry s 1) < 64"
    "nxt (trans_entry s 0) \<noteq> nxt (trans_entry s 1)"
    "out (trans_entry s 0) \<noteq> out (trans_entry s 1)"
    "out (trans_entry s 0) \<in> {0, 1, 2, 3}" "out (trans_entry s 1) \<in> {0, 1, 2, 3}"
    by blast+
qed

lemma hamming_facts:
  assumes "ref \<in> {0, 1, 2, 3}" "r \<in> {0, 1, 2, 3}"
  shows "0 \<le> hamming ref r" "hamming ref r = 0 \<longleftrightarrow> ref = r"
  using assms by (auto simp: hamming_def)

lemma and_127: "x AND 127 = take_bit 7 x" and and_63: "x AND 63 = take_bit 6 x" for x :: "32 word"
  by (simp_all add: take_bit_eq_mask mask_eq_exp_minus_1)

lemma shift_mask:
  "(push_bit 1 (sr AND 63) OR b) AND 127 = (push_bit 1 sr OR b) AND (127 :: 32 word)"
  unfolding and_127 and_63
  by (rule bit_word_eqI) (simp only: bit_take_bit_iff bit_or_iff bit_push_bit_iff, auto)

lemma six_zeros:
  "take_bit 6 (take_bit 7 (push_bit 1 (take_bit 7 (push_bit 1 (take_bit 7 (push_bit 1
     (take_bit 7 (push_bit 1 (take_bit 7 (push_bit 1 (take_bit 7 (push_bit 1 x))))))))))))
   = (0::32 word)"
  by (rule bit_word_eqI) (simp only: bit_take_bit_iff bit_or_iff bit_push_bit_iff, auto)

lemma tstate_less: "tstate bs t < 64"
proof -
  have "reg (take t bs) AND 63 \<le> 63"
    by (rule word_and_le1)
  then show ?thesis
    by (simp add: tstate_def word_le_nat_alt)
qed

lemma fst_push: "fst (push (sr, c) b) = (push_bit 1 sr OR word_of_int (b AND 1)) AND 127"
  by (simp add: push_def Let_def M_def)

lemma snd_push:
  "snd (push (sr, c) b) = c @ [parity32 (fst (push (sr, c) b) AND G0), parity32 (fst (push (sr, c) b) AND G1)]"
  by (simp add: push_def Let_def)

lemma fst_foldl_push: "fst (foldl push (sr, c) bs) = fst (foldl push (sr, c') bs)"
proof (induction bs arbitrary: sr c c')
  case Nil
  show ?case by simp
next
  case (Cons b bs)
  have "push (sr, c) b = (fst (push (sr, c) b), snd (push (sr, c) b))" by simp
  moreover have "push (sr, c') b = (fst (push (sr, c) b), snd (push (sr, c') b))"
    by (simp add: push_def Let_def)
  ultimately show ?case
    using Cons.IH [of "fst (push (sr, c) b)" "snd (push (sr, c) b)" "snd (push (sr, c') b)"]
    by (metis foldl_Cons)
qed

lemma reg_snoc: "reg (bs @ [b]) = (push_bit 1 (reg bs) OR word_of_int (b AND 1)) AND 127"
proof -
  obtain sr c where st: "foldl push (0, []) bs = (sr, c)"
    by (metis prod.exhaust)
  then show ?thesis
    by (simp add: reg_def fst_push)
qed

lemma reg_snoc_zero: "reg (bs @ [0]) = take_bit 7 (push_bit 1 (reg bs))"
proof -
  have "word_of_int (0 AND 1) = (0::32 word)" by simp
  then have "(push_bit 1 (reg bs) OR word_of_int (0 AND 1)) AND 127 = push_bit 1 (reg bs) AND 127"
    by (simp only: or.right_neutral)
  then show ?thesis
    by (simp only: reg_snoc and_127)
qed

lemma reg_take_Suc:
  assumes "t < length bs"
  shows "reg (take (Suc t) bs) = (push_bit 1 (reg (take t bs)) OR word_of_int (bs ! t AND 1)) AND 127"
  using assms by (simp add: take_Suc_conv_app_nth reg_snoc)

lemma trellis_link:
  assumes "t < length bs" and "bs ! t \<in> {0, 1}"
  shows "trans_entry (tstate bs t) (word_of_int (bs ! t))
           = \<lparr>nxt = tstate bs (Suc t),
              out = push_bit 1 (parity32 (reg (take (Suc t) bs) AND G0))
                      OR parity32 (reg (take (Suc t) bs) AND G1)\<rparr>"
proof -
  have b: "word_of_int (bs ! t AND 1) = (word_of_int (bs ! t) :: 32 word)"
    using assms(2) by auto
  have "(push_bit 1 (word_of_nat (tstate bs t)) OR word_of_int (bs ! t)) AND (127 :: 32 word)
          = (push_bit 1 (reg (take t bs) AND 63) OR word_of_int (bs ! t)) AND 127"
    by (simp only: tstate_def of_nat_unat ucast_id)
  also have "\<dots> = (push_bit 1 (reg (take t bs)) OR word_of_int (bs ! t)) AND 127"
    by (rule shift_mask)
  also have "\<dots> = reg (take (Suc t) bs)"
    by (simp only: reg_take_Suc [OF assms(1)] b)
  finally have sr: "(push_bit 1 (word_of_nat (tstate bs t)) OR word_of_int (bs ! t))
                      AND (push_bit (M + 1) 1 - 1) = reg (take (Suc t) bs)"
    by (simp add: M_def)
  have m6: "push_bit M 1 - 1 = (63 :: 32 word)"
    by (simp add: M_def)
  show ?thesis
    unfolding trans_entry_def Let_def sr m6 by (simp only: tstate_def)
qed

lemma tstate_final: "tstate (u @ replicate 6 0) (length u + 6) = 0"
proof -
  have "replicate 6 (0::int) = [0] @ [0] @ [0] @ [0] @ [0] @ [0]"
    by (simp add: numeral_eq_Suc)
  then have "reg (u @ replicate 6 0) = reg ((((((u @ [0]) @ [0]) @ [0]) @ [0]) @ [0]) @ [0])"
    by simp
  also have "\<dots> AND 63 = 0"
    unfolding reg_snoc_zero and_63 by (rule six_zeros)
  finally show ?thesis
    by (simp add: tstate_def)
qed

lemma tstate_0: "tstate bs 0 = 0"
  by (simp add: tstate_def reg_def)

subsection \<open>One step of the add-compare-select loop\<close>

lemma relax_other:
  assumes "acs_inv t sp ns bp pred0 dec0 fin st" and "nxt tr < 64"
    and "1 \<le> pm + hamming (out tr) r"
  shows "acs_inv t sp ns bp pred0 dec0 fin (relax t s pm r tr b st)"
proof (cases st)
  case (fields pm_c pd dc)
  show ?thesis
  proof (cases "pm + hamming (out tr) r < pm_c ! nxt tr")
    case False
    with assms(1) fields show ?thesis
      by (simp add: relax_def Let_def hamming_def)
  next
    case True
    have ne: "fin \<Longrightarrow> nxt tr \<noteq> ns"
      using True assms(1,3) fields by (auto simp: acs_inv_def)
    have st': "relax t s pm r tr b st
                 = (pm_c[nxt tr := pm + hamming (out tr) r],
                    pd[t * 64 + nxt tr := int s], dc[t * 64 + nxt tr := b])"
      using True fields by (simp add: relax_def Let_def hamming_def NSTATE_64)
    show ?thesis
      unfolding st' using assms fields ne
      by (auto simp: acs_inv_def nth_list_update)
  qed
qed

lemma relax_true:
  assumes "acs_inv t sp ns bp pred0 dec0 False st" and "nxt tr = ns" and "ns < 64"
    and "pm + hamming (out tr) r = 0"
    and "t * 64 + ns < length pred0" and "t * 64 + ns < length dec0"
  shows "acs_inv t sp ns bp pred0 dec0 True (relax t sp pm r tr bp st)"
proof (cases st)
  case (fields pm_c pd dc)
  have "pm + hamming (out tr) r < pm_c ! nxt tr"
    using assms(1,2,4) fields by (simp add: acs_inv_def)
  then have st': "relax t sp pm r tr bp st
               = (pm_c[ns := 0], pd[t * 64 + ns := int sp], dc[t * 64 + ns := bp])"
    using fields assms(2,4) by (simp add: relax_def Let_def hamming_def NSTATE_64)
  show ?thesis
    unfolding st' using assms fields
    by (auto simp: acs_inv_def nth_list_update)
qed

lemma T_nth:
  assumes "s < 64"
  shows "T0 ! s = trans_entry s 0" "T1 ! s = trans_entry s 1"
  using assms by (simp_all add: T0_def T1_def NSTATE_64)

lemma state_step_other:
  assumes "acs_inv t sp ns bp pred0 dec0 fin st" and "s < 64" and "1 \<le> pm_prev ! s"
    and "r \<in> {0, 1, 2, 3}"
  shows "acs_inv t sp ns bp pred0 dec0 fin (state_step t r pm_prev st s)"
proof (cases "pm_prev ! s \<ge> PM_INF")
  case True
  with assms(1) show ?thesis by (simp add: state_step_def)
next
  case False
  note tf = trellis_facts [OF assms(2)]
  have h0: "1 \<le> pm_prev ! s + hamming (out (trans_entry s 0)) r"
    using hamming_facts(1) [OF tf(5) assms(4)] assms(3) by linarith
  have h1: "1 \<le> pm_prev ! s + hamming (out (trans_entry s 1)) r"
    using hamming_facts(1) [OF tf(6) assms(4)] assms(3) by linarith
  have "acs_inv t sp ns bp pred0 dec0 fin
          (relax t s (pm_prev ! s) r (trans_entry s 1) 1
             (relax t s (pm_prev ! s) r (trans_entry s 0) 0 st))"
    by (intro relax_other assms(1) tf(1) tf(2) h0 h1)
  with False show ?thesis
    by (simp add: state_step_def Let_def T_nth [OF assms(2)])
qed

lemma state_step_true:
  assumes inv: "acs_inv t sp ns bp pred0 dec0 False st" and sp: "sp < 64"
    and pm0: "pm_prev ! sp = 0" and bp: "bp \<in> {0, 1}"
    and tr: "trans_entry sp (word_of_int bp) = \<lparr>nxt = ns, out = r\<rparr>"
    and len: "t * 64 + ns < length pred0" "t * 64 + ns < length dec0"
  shows "acs_inv t sp ns bp pred0 dec0 True (state_step t r pm_prev st sp)"
proof -
  note tf = trellis_facts [OF sp]
  have fin: "\<not> pm_prev ! sp \<ge> PM_INF"
    using pm0 by (simp add: PM_INF_def)
  have step: "state_step t r pm_prev st sp
                = relax t sp 0 r (trans_entry sp 1) 1 (relax t sp 0 r (trans_entry sp 0) 0 st)"
    using fin pm0 by (simp add: state_step_def Let_def T_nth [OF sp])
  from bp consider "bp = 0" | "bp = 1" by auto
  then show ?thesis
  proof cases
    case 1
    with tr have e0: "nxt (trans_entry sp 0) = ns" "out (trans_entry sp 0) = r"
      by simp_all
    have ns: "ns < 64" and r: "r \<in> {0, 1, 2, 3}"
      using tf(1,5) e0 by simp_all
    have "hamming (out (trans_entry sp 0)) r = 0"
      using hamming_facts(2) [OF r r] e0 by simp
    then have a: "acs_inv t sp ns bp pred0 dec0 True (relax t sp 0 r (trans_entry sp 0) 0 st)"
      using relax_true [OF inv e0(1) ns _ len, of 0 r] 1 by simp
    have "hamming (out (trans_entry sp 1)) r \<noteq> 0"
      using hamming_facts(2) [OF tf(6) r] tf(4) e0 by simp
    moreover have "0 \<le> hamming (out (trans_entry sp 1)) r"
      by (rule hamming_facts(1) [OF tf(6) r])
    ultimately have "1 \<le> 0 + hamming (out (trans_entry sp 1)) r"
      by linarith
    from relax_other [OF a tf(2) this] show ?thesis
      by (simp only: step)
  next
    case 2
    with tr have e1: "nxt (trans_entry sp 1) = ns" "out (trans_entry sp 1) = r"
      by simp_all
    have ns: "ns < 64" and r: "r \<in> {0, 1, 2, 3}"
      using tf(2,6) e1 by simp_all
    have "hamming (out (trans_entry sp 0)) r \<noteq> 0"
      using hamming_facts(2) [OF tf(5) r] tf(4) e1 by simp
    moreover have "0 \<le> hamming (out (trans_entry sp 0)) r"
      by (rule hamming_facts(1) [OF tf(5) r])
    ultimately have "1 \<le> 0 + hamming (out (trans_entry sp 0)) r"
      by linarith
    from relax_other [OF inv tf(1) this]
    have a: "acs_inv t sp ns bp pred0 dec0 False (relax t sp 0 r (trans_entry sp 0) 0 st)" .
    have "hamming (out (trans_entry sp 1)) r = 0"
      using hamming_facts(2) [OF r r] e1 by simp
    then have "acs_inv t sp ns bp pred0 dec0 True
                 (relax t sp 0 r (trans_entry sp 1) bp (relax t sp 0 r (trans_entry sp 0) 0 st))"
      using relax_true [OF a e1(1) ns _ len, of 0 r] by simp
    with 2 show ?thesis
      by (simp only: step)
  qed
qed

lemma inner_loop:
  assumes sp: "sp < 64" and pm0: "pm_prev ! sp = 0"
    and others: "\<forall>s<64. s \<noteq> sp \<longrightarrow> 1 \<le> pm_prev ! s"
    and bp: "bp \<in> {0, 1}"
    and tr: "trans_entry sp (word_of_int bp) = \<lparr>nxt = ns, out = r\<rparr>"
    and len: "t * 64 + ns < length pred0" "t * 64 + ns < length dec0"
    and k: "k \<le> 64"
  shows "acs_inv t sp ns bp pred0 dec0 (sp < k)
           (foldl (state_step t r pm_prev) (replicate 64 PM_INF, pred0, dec0) [0..<k])"
  using k
proof (induction k)
  case 0
  have "ns < 64"
  proof -
    from bp consider "bp = 0" | "bp = 1" by auto
    then show ?thesis
      using trellis_facts(1,2) [OF sp] tr by cases simp_all
  qed
  then show ?case
    by (simp add: acs_inv_def PM_INF_def)
next
  case (Suc k)
  then have IH: "acs_inv t sp ns bp pred0 dec0 (sp < k)
           (foldl (state_step t r pm_prev) (replicate 64 PM_INF, pred0, dec0) [0..<k])"
    and k: "k < 64" by simp_all
  have r: "r \<in> {0, 1, 2, 3}"
  proof -
    from bp consider "bp = 0" | "bp = 1" by auto
    then show ?thesis
      using trellis_facts(5,6) [OF sp] tr by cases simp_all
  qed
  show ?case
  proof (cases "k = sp")
    case True
    with IH have "acs_inv t sp ns bp pred0 dec0 False
           (foldl (state_step t r pm_prev) (replicate 64 PM_INF, pred0, dec0) [0..<k])"
      by simp
    from state_step_true [OF this sp pm0 bp tr len] True show ?thesis
      by simp
  next
    case False
    with others k have "1 \<le> pm_prev ! k" by simp
    from state_step_other [OF IH k this r] False show ?thesis
      by (simp add: less_Suc_eq)
  qed
qed

subsection \<open>The forward pass and the traceback follow the encoder\<close>

lemma foldl_push_reg: "fst (foldl push (0, []) bs) = reg bs"
  by (simp add: reg_def)

lemma encoder_output_nth:
  assumes "t < length bs"
  shows "snd (foldl push (0, []) bs) ! (2 * t) = parity32 (reg (take (Suc t) bs) AND G0)
       \<and> snd (foldl push (0, []) bs) ! (2 * t + 1) = parity32 (reg (take (Suc t) bs) AND G1)"
  using assms
proof (induction bs rule: rev_induct)
  case Nil
  then show ?case by simp
next
  case (snoc b bs)
  obtain sr c where st: "foldl push (0, []) bs = (sr, c)"
    by (metis prod.exhaust)
  have sr: "sr = reg bs"
    using st by (simp add: reg_def)
  have len: "length c = 2 * length bs"
    using length_foldl_push [of "(0, [])" bs] st by simp
  have regb: "fst (push (sr, c) b) = reg (bs @ [b])"
    using st by (simp add: reg_def)
  have out: "snd (foldl push (0, []) (bs @ [b]))
               = c @ [parity32 (reg (bs @ [b]) AND G0), parity32 (reg (bs @ [b]) AND G1)]"
    using st snd_push [of sr c b] regb by simp
  show ?case
  proof (cases "t < length bs")
    case True
    with snoc.IH st have "c ! (2 * t) = parity32 (reg (take (Suc t) bs) AND G0)"
      and "c ! (2 * t + 1) = parity32 (reg (take (Suc t) bs) AND G1)"
      by simp_all
    with True len show ?thesis
      unfolding out by (simp add: nth_append)
  next
    case False
    with snoc.prems have t: "t = length bs" by simp
    show ?thesis
      unfolding out using len t by (simp add: nth_append)
  qed
qed

lemma encode_as_fold: "encode u = snd (foldl push (0, []) (u @ replicate 6 0))"
  by (simp add: encode_def M_def)

lemma acs_step_path:
  assumes inv: "path_inv bs N t st" and t: "t < N" and N: "N = length bs"
    and bit: "bs ! t \<in> {0, 1}"
  shows "path_inv bs N (Suc t) (acs_step (snd (foldl push (0, []) bs)) st t)"
proof (cases st)
  case (fields pm pd dc)
  define r where "r = push_bit 1 (parity32 (reg (take (Suc t) bs) AND G0))
                        OR parity32 (reg (take (Suc t) bs) AND G1)"
  define ns where "ns = tstate bs (Suc t)"
  define sp where "sp = tstate bs t"
  have tl: "t < length bs" using t N by simp
  have tr: "trans_entry sp (word_of_int (bs ! t)) = \<lparr>nxt = ns, out = r\<rparr>"
    unfolding sp_def ns_def r_def by (rule trellis_link [OF tl bit])
  have sp: "sp < 64" and ns: "ns < 64"
    unfolding sp_def ns_def by (rule tstate_less)+
  from inv fields have pm: "length pm = 64" "pm ! sp = 0" "\<forall>s<64. s \<noteq> sp \<longrightarrow> 1 \<le> pm ! s"
    and pd: "length pd = N * 64" "length dc = N * 64"
    and old: "\<forall>t'<t. pd ! (t' * 64 + tstate bs (Suc t')) = int (tstate bs t')
                  \<and> dc ! (t' * 64 + tstate bs (Suc t')) = bs ! t'"
    by (simp_all add: path_inv_def sp_def)
  have "(t + 1) * 64 \<le> N * 64" using t by simp
  then have idx: "t * 64 + ns < N * 64" using ns by simp
  have step: "acs_step (snd (foldl push (0, []) bs)) st t
                = foldl (state_step t r pm) (replicate 64 PM_INF, pd, dc) [0..<64]"
    using encoder_output_nth [OF tl] fields
    by (simp add: acs_step_def Let_def r_def NSTATE_64)
  obtain pm' pd' dc'
    where res: "foldl (state_step t r pm) (replicate 64 PM_INF, pd, dc) [0..<64] = (pm', pd', dc')"
    by (metis prod.exhaust)
  have "acs_inv t sp ns (bs ! t) pd dc (sp < 64)
          (foldl (state_step t r pm) (replicate 64 PM_INF, pd, dc) [0..<64])"
    by (rule inner_loop [OF sp pm(2) pm(3) bit tr]) (simp_all add: pd idx)
  with sp res have new: "length pm' = 64" "length pd' = N * 64" "length dc' = N * 64"
    "\<forall>s<64. s \<noteq> ns \<longrightarrow> 1 \<le> pm' ! s"
    "\<forall>i < t * 64. pd' ! i = pd ! i \<and> dc' ! i = dc ! i"
    "pm' ! ns = 0" "pd' ! (t * 64 + ns) = int sp" "dc' ! (t * 64 + ns) = bs ! t"
    by (simp_all add: acs_inv_def pd)
  have hist: "pd' ! (t' * 64 + tstate bs (Suc t')) = int (tstate bs t')
            \<and> dc' ! (t' * 64 + tstate bs (Suc t')) = bs ! t'" if "t' < Suc t" for t'
  proof (cases "t' = t")
    case True
    with new(7,8) show ?thesis by (simp add: ns_def sp_def)
  next
    case False
    with that have lt: "t' < t" by simp
    then have "(t' + 1) * 64 \<le> t * 64" by simp
    then have "t' * 64 + tstate bs (Suc t') < t * 64"
      using tstate_less [of bs "Suc t'"] by simp
    with new(5) old lt show ?thesis by simp
  qed
  show ?thesis
    unfolding step res using new hist
    by (simp add: path_inv_def ns_def)
qed

lemma forward_path:
  assumes N: "N = length bs" and bits: "\<forall>t<N. bs ! t \<in> {0, 1}" and n: "n \<le> N"
  shows "path_inv bs N n
           (foldl (acs_step (snd (foldl push (0, []) bs)))
              ((replicate 64 PM_INF)[0 := 0], replicate (N * 64) (- 1), replicate (N * 64) 0)
              [0..<n])"
  using n
proof (induction n)
  case 0
  show ?case
    by (simp add: path_inv_def tstate_0 PM_INF_def nth_list_update)
next
  case (Suc n)
  then have "path_inv bs N n
           (foldl (acs_step (snd (foldl push (0, []) bs)))
              ((replicate 64 PM_INF)[0 := 0], replicate (N * 64) (- 1), replicate (N * 64) 0)
              [0..<n])" and n: "n < N"
    by simp_all
  from acs_step_path [OF this(1) n N] bits n show ?case
    by simp
qed

lemma traceback_path:
  assumes inv: "path_inv bs N N (pm, pd, dc)" and n: "n \<le> N" and uh: "length uh = K"
  shows "foldl (tb_step pd dc K) (tstate bs n, uh) (rev [0..<n])
           = (tstate bs 0, map (\<lambda>j. if j < n then bs ! j else uh ! j) [0..<K])"
  using n uh
proof (induction n arbitrary: uh)
  case 0
  have "map (\<lambda>j. uh ! j) [0..<length uh] = uh"
    by (rule map_nth)
  with 0 show ?case
    by simp
next
  case (Suc n)
  then have n: "n < N" by simp
  with inv have rd: "pd ! (n * 64 + tstate bs (Suc n)) = int (tstate bs n)"
    "dc ! (n * 64 + tstate bs (Suc n)) = bs ! n"
    by (simp_all add: path_inv_def)
  define uh' where "uh' = (if n < K then uh[n := bs ! n] else uh)"
  have step: "tb_step pd dc K (tstate bs (Suc n), uh) n = (tstate bs n, uh')"
    using rd by (simp add: tb_step_def Let_def NSTATE_64 uh'_def)
  have len: "length uh' = K"
    using Suc.prems(2) by (simp add: uh'_def)
  have "foldl (tb_step pd dc K) (tstate bs (Suc n), uh) (rev [0..<Suc n])
          = foldl (tb_step pd dc K) (tstate bs n, uh') (rev [0..<n])"
    by (simp add: step)
  also have "\<dots> = (tstate bs 0, map (\<lambda>j. if j < n then bs ! j else uh' ! j) [0..<K])"
    using Suc.IH [OF _ len] n by simp
  also have "map (\<lambda>j. if j < n then bs ! j else uh' ! j) [0..<K]
               = map (\<lambda>j. if j < Suc n then bs ! j else uh ! j) [0..<K]"
    using Suc.prems(2) by (auto simp: uh'_def nth_list_update less_Suc_eq)
  finally show ?case .
qed

text \<open>
  C3. For every bit string \<open>u\<close> with entries in \<open>{0, 1}\<close>, hard-decision Viterbi
  decoding of the exact encoder output gives back \<open>u\<close>.
\<close>

theorem viterbi_noiseless_roundtrip:
  assumes "set u \<subseteq> {0, 1}"
  shows "decode (encode u) = u"
proof -
  define bs where "bs = u @ replicate 6 (0::int)"
  define N where "N = length u + 6"
  define K where "K = length u"
  have N: "N = length bs" by (simp add: N_def bs_def)
  have bits: "\<forall>t<N. bs ! t \<in> {0, 1}"
  proof (intro allI impI)
    fix t assume "t < N"
    then have "bs ! t \<in> set bs" using N by simp
    also have "set bs \<subseteq> {0, 1}" using assms by (auto simp: bs_def)
    finally show "bs ! t \<in> {0, 1}" .
  qed
  have enc: "encode u = snd (foldl push (0, []) bs)"
    by (simp add: encode_as_fold bs_def)
  have n_sym: "length (encode u) div 2 = N"
    by (simp add: encode_length N_def)
  have KM: "(if N > M then N - M else 0) = K"
    by (simp add: N_def K_def M_def)
  obtain pm pd dc
    where fw: "foldl (acs_step (snd (foldl push (0, []) bs)))
                 ((replicate 64 PM_INF)[0 := 0], replicate (N * 64) (- 1), replicate (N * 64) 0)
                 [0..<N] = (pm, pd, dc)"
    by (metis prod.exhaust)
  have inv: "path_inv bs N N (pm, pd, dc)"
    using forward_path [OF N bits le_refl] fw by simp
  have start: "tstate bs N = 0"
    unfolding bs_def N_def by (rule tstate_final)
  have "foldl (tb_step pd dc K) (0, replicate K 0) (rev [0..<N])
          = (tstate bs 0, map (\<lambda>j. if j < N then bs ! j else replicate K 0 ! j) [0..<K])"
    using traceback_path [OF inv le_refl, of "replicate K 0" K] start by simp
  also have "map (\<lambda>j. if j < N then bs ! j else replicate K 0 ! j) [0..<K] = u"
    by (rule nth_equalityI) (simp_all add: K_def N_def bs_def nth_append)
  finally have tb: "snd (foldl (tb_step pd dc K) (0, replicate K 0) (rev [0..<N])) = u"
    by simp
  have "N \<noteq> 0" by (simp add: N_def)
  then show ?thesis
    unfolding decode_def Let_def n_sym enc [symmetric] KM
    using fw tb by (simp add: enc NSTATE_64)
qed

theorem viterbi_noiseless_roundtrip_witness:
  "set [1, 0, 1] \<subseteq> {0, 1 :: int}
   \<and> encode [1, 0, 1] = [1, 1, 1, 0, 1, 1, 0, 1, 1, 1, 1, 0, 0, 0, 0, 1, 1, 1]
   \<and> decode [1, 1, 1, 0, 1, 1, 0, 1, 1, 1, 1, 0, 0, 0, 0, 1, 1, 1] = [1, 0, 1]"
proof -
  have z: "replicate 6 (0::int) = [0, 0, 0, 0, 0, 0]"
    by (simp add: numeral_eq_Suc)
  have e: "encode [1, 0, 1] = [1, 1, 1, 0, 1, 1, 0, 1, 1, 1, 1, 0, 0, 0, 0, 1, 1, 1]"
    unfolding encode_as_fold z
    by (simp add: push_def parity32_def p4_def G0_def G1_def M_def)
  have s: "set [1, 0, 1] \<subseteq> {0, 1 :: int}"
    by simp
  show ?thesis
    using viterbi_noiseless_roundtrip [OF s] e s by simp
qed

section \<open>The stop decision of a worker\<close>




section \<open>The Wilson interval in doubles\<close>

lemma wilson_ci_steps:
  assumes "0 < b"
    and "to_double b = n" and "to_double e = te" and "fdiv te n = p" and "fmul z z = z2"
    and "fdiv z2 n = a" and "fadd 1 a = denom"
    and "fmul 2 n = n2" and "fdiv z2 n2 = h" and "fadd p h = cn" and "fdiv cn denom = center"
    and "fsub 1 p = q" and "fmul p q = pq" and "fdiv pq n = v1"
    and "fmul 4 n = n4" and "fmul n4 n = n44" and "fdiv z2 n44 = v2" and "fadd v1 v2 = v"
    and "0 \<le> v"
    and "fsqrt v = s" and "fmul z s = zs" and "fdiv zs denom = rad"
    and "fsub center rad = lo" and "fadd center rad = hi"
  shows "wilson_ci e b z = (max 0 lo, min 1 hi, Some rad)"
  using assms by (simp add: wilson_ci_def Let_def)

text \<open>
  The interval is ordered and inside the unit interval whenever \<open>errs \<le> bits\<close>, and its
  half-width is then a number: every rounding is monotone, and \<open>2n\<close> rounds to at
  least \<open>n\<close>.
\<close>

lemma wilson_ci_order:
  assumes "0 < b" and "e \<le> b" and "0 \<le> z"
  shows "case wilson_ci e b z of (lo, hi, half) \<Rightarrow> 0 \<le> lo \<and> lo \<le> hi \<and> hi \<le> 1 \<and> half \<noteq> None"
proof -
  define n where "n = to_double b"
  define te where "te = to_double e"
  define p where "p = fdiv te n"
  define z2 where "z2 = fmul z z"
  define a where "a = fdiv z2 n"
  define denom where "denom = fadd 1 a"
  define n2 where "n2 = fmul 2 n"
  define h where "h = fdiv z2 n2"
  define cn where "cn = fadd p h"
  define center where "center = fdiv cn denom"
  define q where "q = fsub 1 p"
  define pq where "pq = fmul p q"
  define v1 where "v1 = fdiv pq n"
  define n4 where "n4 = fmul 4 n"
  define n44 where "n44 = fmul n4 n"
  define v2 where "v2 = fdiv z2 n44"
  define v where "v = fadd v1 v2"
  define s where "s = fsqrt v"
  define zs where "zs = fmul z s"
  define rad where "rad = fdiv zs denom"
  define lo where "lo = fsub center rad"
  define hi where "hi = fadd center rad"
  have n1: "1 \<le> n"
    using rne_mono [of 1 "real b"] assms(1) by (simp add: n_def to_double_def rne_1)
  have te: "0 \<le> te" "te \<le> n"
    using rne_nonneg [of "real e"] rne_mono [of "real e" "real b"] assms(2)
    by (simp_all add: te_def n_def to_double_def)
  have p: "0 \<le> p" "p \<le> 1"
  proof -
    have "0 \<le> te / n" "te / n \<le> 1"
      using te n1 by simp_all
    then show "0 \<le> p" "p \<le> 1"
      using rne_nonneg [of "te / n"] rne_mono [of "te / n" 1]
      by (simp_all add: p_def fdiv_def rne_1)
  qed
  have z2: "0 \<le> z2"
    by (simp add: z2_def fmul_def rne_nonneg)
  have a: "0 \<le> a"
    using z2 n1 by (simp add: a_def fdiv_def rne_nonneg)
  have d: "1 \<le> denom"
    using rne_mono [of 1 "1 + a"] a by (simp add: denom_def fadd_def rne_1)
  have n2: "n \<le> n2"
  proof -
    have pos: "0 < 2 * n"
      using n1 by simp
    have "expo 1 \<le> expo (2 * n)"
      using n1 by (intro expo_mono) simp_all
    moreover have "expo 1 = 0"
      by (simp add: expo_def)
    ultimately have "- 1022 < expo (2 * n)"
      by simp
    with pos have "2 powr of_int (expo (2 * n)) \<le> rne (2 * n)"
      by (rule rne_lower)
    moreover have "2 * n < 2 powr (of_int (expo (2 * n)) + 1)"
      using pos by (rule below_next_binade)
    then have "n < 2 powr of_int (expo (2 * n))"
      by (simp add: powr_add)
    ultimately show ?thesis
      by (simp add: n2_def fmul_def)
  qed
  have h: "0 \<le> h" "h \<le> a"
  proof -
    have "0 \<le> z2 / n2" "z2 / n2 \<le> z2 / n"
      using z2 n2 n1 by (simp_all add: frac_le)
    then show "0 \<le> h" "h \<le> a"
      using rne_nonneg [of "z2 / n2"] rne_mono [of "z2 / n2" "z2 / n"]
      by (simp_all add: h_def a_def fdiv_def)
  qed
  have cn: "0 \<le> cn" "cn \<le> denom"
    using rne_nonneg [of "p + h"] rne_mono [of "p + h" "1 + a"] p h
    by (simp_all add: cn_def denom_def fadd_def)
  have c: "0 \<le> center" "center \<le> 1"
  proof -
    have "0 \<le> cn / denom" "cn / denom \<le> 1"
      using cn d by simp_all
    then show "0 \<le> center" "center \<le> 1"
      using rne_nonneg [of "cn / denom"] rne_mono [of "cn / denom" 1]
      by (simp_all add: center_def fdiv_def rne_1)
  qed
  have q: "0 \<le> q"
    using p by (simp add: q_def fsub_def rne_nonneg)
  have pq: "0 \<le> pq"
    using p q by (simp add: pq_def fmul_def rne_nonneg)
  have v1: "0 \<le> v1"
    using pq n1 by (simp add: v1_def fdiv_def rne_nonneg)
  have n4: "0 \<le> n4"
    using n1 by (simp add: n4_def fmul_def rne_nonneg)
  have n44: "0 \<le> n44"
    using n4 n1 by (simp add: n44_def fmul_def rne_nonneg)
  have v2: "0 \<le> v2"
    using z2 n44 by (simp add: v2_def fdiv_def rne_nonneg)
  have v: "0 \<le> v"
    using v1 v2 by (simp add: v_def fadd_def rne_nonneg)
  have s: "0 \<le> s"
    using v by (simp add: s_def fsqrt_def rne_nonneg)
  have zs: "0 \<le> zs"
    using s assms(3) by (simp add: zs_def fmul_def rne_nonneg)
  have rad: "0 \<le> rad"
    using zs d by (simp add: rad_def fdiv_def rne_nonneg)
  have hi: "0 \<le> hi"
    using c rad by (simp add: hi_def fadd_def rne_nonneg)
  have lo: "lo \<le> hi \<and> lo \<le> 1"
  proof (cases "0 \<le> center - rad")
    case True
    then have "rne (center - rad) \<le> rne (center + rad)" "rne (center - rad) \<le> rne 1"
      using rad c by (simp_all add: rne_mono)
    then show ?thesis
      by (simp add: lo_def hi_def fsub_def fadd_def rne_1)
  next
    case False
    then have "lo \<le> 0"
      by (simp add: lo_def fsub_def rne_nonpos)
    with hi show ?thesis
      by simp
  qed
  have "wilson_ci e b z = (max 0 lo, min 1 hi, Some rad)"
    by (rule wilson_ci_steps [OF assms(1) n_def [symmetric] te_def [symmetric] p_def [symmetric]
          z2_def [symmetric] a_def [symmetric] denom_def [symmetric] n2_def [symmetric]
          h_def [symmetric] cn_def [symmetric] center_def [symmetric] q_def [symmetric]
          pq_def [symmetric] v1_def [symmetric] n4_def [symmetric] n44_def [symmetric]
          v2_def [symmetric] v_def [symmetric] v s_def [symmetric] zs_def [symmetric]
          rad_def [symmetric] lo_def [symmetric] hi_def [symmetric]])
  then show ?thesis
    using hi lo by simp
qed

text \<open>
  Three intervals under the critical value \<open>z975\<close>, followed operation by operation:
  six errors in six bits, none in six bits, none in a thousand bits.
\<close>


lemma fl_01: "fdiv 6 6 = 1"
  using rne_exact [where x = "6 / 6" and m = 4503599627370496 and k = 52]
  by (simp add: fdiv_def)

lemma fl_02: "fmul (4413446538775251 / 2251799813685248) (4413446538775251 / 2251799813685248) = 8650196270666319 / 2251799813685248"
  using rne_near [where x = "(4413446538775251 / 2251799813685248) * (4413446538775251 / 2251799813685248)" and m = 8650196270666319 and k = 51]
  by (simp add: fmul_def)

lemma fl_03: "fdiv (8650196270666319 / 2251799813685248) 6 = 2883398756888773 / 4503599627370496"
  using rne_exact [where x = "(8650196270666319 / 2251799813685248) / 6" and m = 5766797513777546 and k = 53]
  by (simp add: fdiv_def)

lemma fl_04: "fadd 1 (2883398756888773 / 4503599627370496) = 7386998384259269 / 4503599627370496"
  using rne_exact [where x = "1 + (2883398756888773 / 4503599627370496)" and m = 7386998384259269 and k = 52]
  by (simp add: fadd_def)

lemma fl_05: "fmul 2 6 = 12"
  using rne_exact [where x = "2 * 6" and m = 6755399441055744 and k = 49]
  by (simp add: fmul_def)

lemma fl_06: "fdiv (8650196270666319 / 2251799813685248) 12 = 2883398756888773 / 9007199254740992"
  using rne_exact [where x = "(8650196270666319 / 2251799813685248) / 12" and m = 5766797513777546 and k = 54]
  by (simp add: fdiv_def)

lemma fl_07: "fadd 1 (2883398756888773 / 9007199254740992) = 2972649502907441 / 2251799813685248"
  using rne_tie [where x = "1 + (2883398756888773 / 9007199254740992)" and f = 5945299005814882 and k = 52]
  by (simp add: fadd_def)

lemma fl_08: "fdiv (2972649502907441 / 2251799813685248) (7386998384259269 / 4503599627370496) = 7249289899466783 / 9007199254740992"
  using rne_near [where x = "(2972649502907441 / 2251799813685248) / (7386998384259269 / 4503599627370496)" and m = 7249289899466783 and k = 53]
  by (simp add: fdiv_def)

lemma fl_09: "fsub 1 1 = 0"
  by (simp add: fsub_def rne_0)

lemma fl_10: "fmul 1 0 = 0"
  by (simp add: fmul_def rne_0)

lemma fl_11: "fdiv 0 6 = 0"
  by (simp add: fdiv_def rne_0)

lemma fl_12: "fmul 4 6 = 24"
  using rne_exact [where x = "4 * 6" and m = 6755399441055744 and k = 48]
  by (simp add: fmul_def)

lemma fl_13: "fmul 24 6 = 144"
  using rne_exact [where x = "24 * 6" and m = 5066549580791808 and k = 45]
  by (simp add: fmul_def)

lemma fl_14: "fdiv (8650196270666319 / 2251799813685248) 144 = 7689063351703395 / 288230376151711744"
  using rne_near [where x = "(8650196270666319 / 2251799813685248) / 144" and m = 7689063351703395 and k = 58]
  by (simp add: fdiv_def)

lemma fl_15: "fadd 0 (7689063351703395 / 288230376151711744) = 7689063351703395 / 288230376151711744"
  using rne_exact [where x = "0 + (7689063351703395 / 288230376151711744)" and m = 7689063351703395 and k = 58]
  by (simp add: fadd_def)

lemma fl_16: "fsqrt (7689063351703395 / 288230376151711744) = 1471148846258417 / 9007199254740992"
  using rne_sqrt_near [where x = "7689063351703395 / 288230376151711744" and m = 5884595385033668 and k = 55]
  by (simp add: fsqrt_def)

lemma fl_17: "fmul (4413446538775251 / 2251799813685248) (1471148846258417 / 9007199254740992) = 2883398756888773 / 9007199254740992"
  using rne_near [where x = "(4413446538775251 / 2251799813685248) * (1471148846258417 / 9007199254740992)" and m = 5766797513777546 and k = 54]
  by (simp add: fmul_def)

lemma fl_18: "fdiv (2883398756888773 / 9007199254740992) (7386998384259269 / 4503599627370496) = 7031637421096833 / 36028797018963968"
  using rne_near [where x = "(2883398756888773 / 9007199254740992) / (7386998384259269 / 4503599627370496)" and m = 7031637421096833 and k = 55]
  by (simp add: fdiv_def)

lemma fl_19: "fsub (7249289899466783 / 9007199254740992) (7031637421096833 / 36028797018963968) = 5491380544192575 / 9007199254740992"
  using rne_near [where x = "(7249289899466783 / 9007199254740992) - (7031637421096833 / 36028797018963968)" and m = 5491380544192575 and k = 53]
  by (simp add: fsub_def)

lemma fl_20: "fadd (7249289899466783 / 9007199254740992) (7031637421096833 / 36028797018963968) = 9007199254740991 / 9007199254740992"
  using rne_near [where x = "(7249289899466783 / 9007199254740992) + (7031637421096833 / 36028797018963968)" and m = 9007199254740991 and k = 53]
  by (simp add: fadd_def)

lemma wilson_6_6:
  "wilson_ci 6 6 z975 = (5491380544192575 / 9007199254740992, 9007199254740991 / 9007199254740992, Some (7031637421096833 / 36028797018963968))"
  unfolding z975_def
  using wilson_ci_steps [OF _ to_double_6 to_double_6 fl_01 fl_02 fl_03 fl_04 fl_05 fl_06 fl_07 fl_08 fl_09 fl_10 fl_11 fl_12 fl_13 fl_14 fl_15 _ fl_16 fl_17 fl_18 fl_19 fl_20]
  by simp

lemma fl_21: "fadd 0 (2883398756888773 / 9007199254740992) = 2883398756888773 / 9007199254740992"
  using rne_exact [where x = "0 + (2883398756888773 / 9007199254740992)" and m = 5766797513777546 and k = 54]
  by (simp add: fadd_def)

lemma fl_22: "fsub 1 0 = 1"
  using rne_exact [where x = "1 - 0" and m = 4503599627370496 and k = 52]
  by (simp add: fsub_def)

lemma fl_23: "fmul 0 1 = 0"
  by (simp add: fmul_def rne_0)

lemma fl_24: "fsub (7031637421096833 / 36028797018963968) (7031637421096833 / 36028797018963968) = 0"
  by (simp add: fsub_def rne_0)

lemma fl_25: "fadd (7031637421096833 / 36028797018963968) (7031637421096833 / 36028797018963968) = 7031637421096833 / 18014398509481984"
  using rne_exact [where x = "(7031637421096833 / 36028797018963968) + (7031637421096833 / 36028797018963968)" and m = 7031637421096833 and k = 54]
  by (simp add: fadd_def)

lemma wilson_0_6:
  "wilson_ci 0 6 z975 = (0, 7031637421096833 / 18014398509481984, Some (7031637421096833 / 36028797018963968))"
  unfolding z975_def
  using wilson_ci_steps [OF _ to_double_6 to_double_0 fl_11 fl_02 fl_03 fl_04 fl_05 fl_06 fl_21 fl_18 fl_22 fl_23 fl_11 fl_12 fl_13 fl_14 fl_15 _ fl_16 fl_17 fl_18 fl_24 fl_25]
  by simp


















section \<open>Errors never exceed bits\<close>

lemma foldl_count_le:
  "foldl (\<lambda>e j. e + (if Q j then 1 else 0)) (a::nat) xs \<le> a + length xs"
proof (induction xs arbitrary: a)
  case Nil
  show ?case by simp
next
  case (Cons x xs)
  show ?case
    using Cons.IH [of "a + (if Q x then 1 else 0)"] by (cases "Q x") simp_all
qed

lemma count_errors_le: "snd (count_errors u u_hat) \<le> fst (count_errors u u_hat)"
  using foldl_count_le [of "\<lambda>j. u ! j \<noteq> u_hat ! j" 0 "[0..<min (length u) (length u_hat)]"]
  by (simp add: count_errors_def Let_def)

lemma frame_body_le:
  assumes "frame_body ops P trng = ((L, local_err), trng')"
  shows "local_err \<le> L"
  using assms count_errors_le
  by (auto simp: frame_body_def Let_def split: prod.splits) (metis fst_conv snd_conv)

lemma sum_pending_update:
  "tid < length ws \<Longrightarrow>
     sum_list (map pending (ws[tid := w])) + pending (ws ! tid) = sum_list (map pending ws) + pending w"
proof (induction ws arbitrary: tid)
  case Nil
  then show ?case by simp
next
  case (Cons a ws)
  then show ?case by (cases tid) auto
qed

lemma worker_step_errs_inv:
  assumes "errs_inv st"
  shows "errs_inv (worker_step ops P st tid)"
proof (cases st)
  case (Pair sh ws)
  show ?thesis
  proof (cases "tid < length ws")
    case False
    with Pair assms show ?thesis by (simp add: worker_step_def)
  next
    case True
    note upd = sum_pending_update [OF True]
    show ?thesis
    proof (cases "ws ! tid")
      case (Top g)
      with Pair True assms upd [of Exited] upd [of "Loaded g"] show ?thesis
        by (simp add: worker_step_def errs_inv_def)
    next
      case (Loaded g)
      obtain L le g' where fb: "frame_body ops P g = ((L, le), g')"
        by (metis prod.exhaust)
      from frame_body_le [OF fb] Pair True assms Loaded fb
        upd [of "AddedBits g' (total_bits sh + L) le"]
      show ?thesis
        by (simp add: worker_step_def errs_inv_def Let_def)
    next
      case (AddedBits g ba le)
      with Pair True assms upd [of Storing] upd [of "Top g"] show ?thesis
        by (simp add: worker_step_def errs_inv_def Let_def)
    next
      case Storing
      with Pair True assms upd [of Exited] show ?thesis
        by (simp add: worker_step_def errs_inv_def)
    next
      case Exited
      with Pair True assms show ?thesis
        by (simp add: worker_step_def)
    qed
  qed
qed

lemma run_errs_inv:
  "errs_inv st \<Longrightarrow> errs_inv (foldl (worker_step ops P) st sched)"
  by (induction sched arbitrary: st) (simp_all add: worker_step_errs_inv)

lemma init_errs_inv: "errs_inv (fst (engine_init ops P hw rng))"
proof -
  have "sum_list (map pending (map (\<lambda>sd. Top (f sd)) xs)) = 0" for f :: "64 word \<Rightarrow> 'a" and xs
    by (induction xs) simp_all
  then show ?thesis
    by (simp add: engine_init_def errs_inv_def split: prod.splits)
qed

lemma simulate_totals:
  assumes "simulate_framewise ops P hw rng sched = Some (r, rng')"
  obtains sh where "r = ber_result P sh" "total_err sh \<le> total_bits sh"
proof -
  obtain st0 rng0 where init: "engine_init ops P hw rng = (st0, rng0)"
    by (metis prod.exhaust)
  define st where "st = foldl (worker_step ops P) st0 sched"
  have "errs_inv st0"
    using init_errs_inv [of ops P hw rng] init by simp
  then have "errs_inv st"
    unfolding st_def by (rule run_errs_inv)
  then have le: "total_err (fst st) \<le> total_bits (fst st)"
    by (simp add: errs_inv_def)
  from assms init have "r = ber_result P (fst st)"
    by (simp add: simulate_framewise_def Let_def st_def split: if_splits)
  with le that show thesis by blast
qed

lemma ber_result_fields:
  "bits (ber_result P sh) = total_bits sh"
  "errs (ber_result P sh) = total_err sh"
  "ber (ber_result P sh)
     = (if total_bits sh > 0 then fdiv (to_double (total_err sh)) (to_double (total_bits sh)) else 0)"
  by (simp_all add: ber_result_def split: prod.splits)

lemma quotient_bounds:
  assumes "e \<le> b"
  shows "0 \<le> fdiv (to_double e) (to_double b)" and "fdiv (to_double e) (to_double b) \<le> 1"
proof -
  have te: "0 \<le> to_double e" "to_double e \<le> to_double b"
    using rne_nonneg [of "real e"] rne_mono [of "real e" "real b"] assms
    by (simp_all add: to_double_def)
  then have "0 \<le> to_double e / to_double b" "to_double e / to_double b \<le> 1"
    by (auto simp: divide_le_eq_1)
  then show "0 \<le> fdiv (to_double e) (to_double b)" "fdiv (to_double e) (to_double b) \<le> 1"
    using rne_nonneg [of "to_double e / to_double b"] rne_mono [of "to_double e / to_double b" 1]
    by (simp_all add: fdiv_def rne_1)
qed

lemma ber_result_ber:
  assumes "total_err sh \<le> total_bits sh"
  shows "0 \<le> ber (ber_result P sh)" and "ber (ber_result P sh) \<le> 1"
  using quotient_bounds [OF assms] by (simp_all add: ber_result_fields)

lemma ber_result_ci:
  assumes "total_err sh \<le> total_bits sh"
  shows "if (ci_abs P > 0 \<or> ci_rel P > 0) \<and> total_bits sh > 0 \<and> crit_z P > 0
         then 0 \<le> ci_lo (ber_result P sh)
            \<and> ci_lo (ber_result P sh) \<le> ci_hi (ber_result P sh)
            \<and> ci_hi (ber_result P sh) \<le> 1
         else ci_lo (ber_result P sh) = 0 \<and> ci_hi (ber_result P sh) = 0"
proof (cases "(ci_abs P > 0 \<or> ci_rel P > 0) \<and> total_bits sh > 0 \<and> crit_z P > 0")
  case False
  then show ?thesis
    by (auto simp: ber_result_def)
next
  case True
  then have "0 < total_bits sh" "0 \<le> crit_z P" by simp_all
  from wilson_ci_order [OF this(1) assms this(2)] True show ?thesis
    by (auto simp: ber_result_def split: prod.splits)
qed


section \<open>The end of the sweep\<close>

lemma sweep_break_max:
  assumes "total_err sh \<le> total_bits sh"
    and "ber (ber_result P sh) \<le> ci_hi (ber_result P sh) \<or> ci_hi (ber_result P sh) = 0"
  shows "(if ci_hi (ber_result P sh) > 0 then ci_hi (ber_result P sh) else ber (ber_result P sh))
           = max (ci_hi (ber_result P sh)) (ber (ber_result P sh))"
  using ber_result_ci [OF assms(1), of P] ber_result_ber [OF assms(1), of P] assms(2)
  by (auto simp: max_def split: if_splits)

text \<open>
  C7, as the code has it. At grid point \<open>i\<close>, with \<open>r\<close> the record the engine returned
  for it, the test of the driver holds exactly when \<open>ber_floor > 0\<close> and \<open>t \<le> ber_floor\<close>,
  where \<open>t\<close> is \<open>ci_hi\<close> if \<open>ci_hi > 0\<close> and \<open>ber\<close> otherwise; then the sweep ends with this
  point's record, and otherwise it goes on with point \<open>i + 1\<close>. The value \<open>t\<close> is
  \<open>max(ci_hi, ber)\<close> whenever \<open>ber \<le> ci_hi\<close> or no interval was computed (\<open>ci_hi = 0\<close>).
\<close>

theorem sweep_stops_ternary:
  assumes "i < n"
    and "simulate_framewise ops (P\<lparr>ebn0_db := start + real_of_int i * step\<rparr>) hw rng sched = Some (r, rng')"
  shows "(sweep_break (ber_floor P) r
            \<longleftrightarrow> ber_floor P > 0 \<and> (if ci_hi r > 0 then ci_hi r else ber r) \<le> ber_floor P)
       \<and> (ber r \<le> ci_hi r \<or> ci_hi r = 0
            \<longrightarrow> (if ci_hi r > 0 then ci_hi r else ber r) = max (ci_hi r) (ber r))
       \<and> sweep ops P hw start step n i rng (sched # rest) =
           (if ber_floor P > 0 \<and> (if ci_hi r > 0 then ci_hi r else ber r) \<le> ber_floor P
            then Some [(start + real_of_int i * step, r)]
            else map_option ((#) (start + real_of_int i * step, r))
                   (sweep ops P hw start step n (i + 1) rng' rest))"
proof -
  from assms(2) obtain sh
    where r: "r = ber_result (P\<lparr>ebn0_db := start + real_of_int i * step\<rparr>) sh"
      and le: "total_err sh \<le> total_bits sh"
    by (rule simulate_totals)
  have brk: "sweep_break (ber_floor P) r
               \<longleftrightarrow> ber_floor P > 0 \<and> (if ci_hi r > 0 then ci_hi r else ber r) \<le> ber_floor P"
    by (simp add: sweep_break_def Let_def)
  have mx: "ber r \<le> ci_hi r \<or> ci_hi r = 0
              \<longrightarrow> (if ci_hi r > 0 then ci_hi r else ber r) = max (ci_hi r) (ber r)"
    unfolding r using sweep_break_max [OF le] by blast
  have "sweep ops P hw start step n i rng (sched # rest) =
           (if sweep_break (ber_floor P) r
            then Some [(start + real_of_int i * step, r)]
            else map_option ((#) (start + real_of_int i * step, r))
                   (sweep ops P hw start step n (i + 1) rng' rest))"
    using assms by (simp add: Let_def)
  with brk mx show ?thesis
    by simp
qed


section \<open>The small configuration, run\<close>

lemma demo_seeds:
  "seeds 1 (Suc 0) = [11400714819323198484]"
  "seeds 1 2 = [11400714819323198484, 4354685564936845355]"
  by (simp_all add: seeds_def upt_rec)

lemma demo_init:
  "engine_init demo_ops (demo_params 1) hw 1 =
     ((\<lparr>total_bits = 0, total_err = 0, stop = False\<rparr>, [Top 11400714819323198484]), 2)"
  "engine_init demo_ops (demo_params 2) hw 1 =
     ((\<lparr>total_bits = 0, total_err = 0, stop = False\<rparr>,
       [Top 11400714819323198484, Top 4354685564936845355]), 2)"
  by (simp_all add: engine_init_def demo_ops_def demo_params_def threads_def demo_seeds)

lemma demo_frame:
  "frame_body demo_ops (demo_params nt) 11400714819323198484 = ((1, 0), 11400714819323198486)"
  "frame_body demo_ops (demo_params nt) 4354685564936845355 = ((1, 0), 4354685564936845357)"
  by (simp_all add: frame_body_def demo_ops_def demo_params_def chain_loop.simps symbol_step_def
      load_inbits_def push_group_def equalize_def count_errors_def Let_def)

lemma demo_stop:
  "worker_stop (demo_params nt) (Suc 0) e" "worker_stop (demo_params nt) (Suc (Suc 0)) e"
  by (simp_all add: worker_stop_def demo_params_def)

lemma demo_run_one:
  "foldl (worker_step demo_ops (demo_params 2))
     (\<lparr>total_bits = 0, total_err = 0, stop = False\<rparr>,
       [Top 11400714819323198484, Top 4354685564936845355]) [0, 0, 0, 0, 1]
   = (\<lparr>total_bits = 1, total_err = 0, stop = True\<rparr>, [Exited, Exited])"
  by (simp add: worker_step_def demo_frame demo_stop)

lemma demo_run_two:
  "foldl (worker_step demo_ops (demo_params 2))
     (\<lparr>total_bits = 0, total_err = 0, stop = False\<rparr>,
       [Top 11400714819323198484, Top 4354685564936845355]) [0, 1, 0, 1, 0, 1, 0, 1]
   = (\<lparr>total_bits = 2, total_err = 0, stop = True\<rparr>, [Exited, Exited])"
  by (simp add: worker_step_def demo_frame demo_stop)

lemma demo_run_single:
  "foldl (worker_step demo_ops (demo_params 1))
     (\<lparr>total_bits = 0, total_err = 0, stop = False\<rparr>, [Top 11400714819323198484]) [0, 0, 0, 0]
   = (\<lparr>total_bits = 1, total_err = 0, stop = True\<rparr>, [Exited])"
  "foldl (worker_step demo_ops (demo_params 1))
     (\<lparr>total_bits = 0, total_err = 0, stop = False\<rparr>, [Top 11400714819323198484]) [0, 0, 7, 0, 0, 0]
   = (\<lparr>total_bits = 1, total_err = 0, stop = True\<rparr>, [Exited])"
  by (simp_all add: worker_step_def demo_frame demo_stop)

lemma demo_sim_one:
  "simulate_framewise demo_ops (demo_params 2) hw 1 [0, 0, 0, 0, 1]
    = Some (\<lparr>ber = 0, bits = 1, errs = 0, ci_lo = 0, ci_hi = 0\<rparr>, 2)"
  by (simp only: simulate_framewise_def demo_init demo_run_one prod.case Let_def)
    (simp add: finished_def ber_result_def demo_params_def to_double_0 fdiv_def rne_0)

lemma demo_sim_two:
  "simulate_framewise demo_ops (demo_params 2) hw 1 [0, 1, 0, 1, 0, 1, 0, 1]
    = Some (\<lparr>ber = 0, bits = 2, errs = 0, ci_lo = 0, ci_hi = 0\<rparr>, 2)"
  by (simp only: simulate_framewise_def demo_init demo_run_two prod.case Let_def)
    (simp add: finished_def ber_result_def demo_params_def to_double_0 fdiv_def rne_0)

lemma demo_sim_single:
  "simulate_framewise demo_ops (demo_params 1) hw 1 [0, 0, 0, 0]
    = Some (\<lparr>ber = 0, bits = 1, errs = 0, ci_lo = 0, ci_hi = 0\<rparr>, 2)"
  "simulate_framewise demo_ops (demo_params 1) hw 1 [0, 0, 7, 0, 0, 0]
    = Some (\<lparr>ber = 0, bits = 1, errs = 0, ci_lo = 0, ci_hi = 0\<rparr>, 2)"
  by (simp_all only: simulate_framewise_def demo_init demo_run_single prod.case Let_def)
    (simp_all add: finished_def ber_result_def demo_params_def to_double_0 fdiv_def rne_0)

lemma demo_params_at_4: "(demo_params nt)\<lparr>ebn0_db := 4\<rparr> = demo_params nt"
  by (simp add: demo_params_def)

lemma demo_main:
  "main_records demo_ops 1 t rd (demo_params 2) hw 4 4 1 [[0, 0, 0, 0, 1]]
     = Some [(4, \<lparr>ber = 0, bits = 1, errs = 0, ci_lo = 0, ci_hi = 0\<rparr>)]"
  "main_records demo_ops 1 t rd (demo_params 2) hw 4 4 1 [[0, 1, 0, 1, 0, 1, 0, 1]]
     = Some [(4, \<lparr>ber = 0, bits = 2, errs = 0, ci_lo = 0, ci_hi = 0\<rparr>)]"
  "main_records demo_ops 1 t rd (demo_params 1) hw 4 4 1 [[0, 0, 0, 0]]
     = Some [(4, \<lparr>ber = 0, bits = 1, errs = 0, ci_lo = 0, ci_hi = 0\<rparr>)]"
  "main_records demo_ops 1 t rd (demo_params 1) hw 4 4 1 [[0, 0, 7, 0, 0, 0]]
     = Some [(4, \<lparr>ber = 0, bits = 1, errs = 0, ci_lo = 0, ci_hi = 0\<rparr>)]"
proof -
  have rng: "seed_rng demo_ops (make_seed 1 t rd) = 1"
    by (simp add: make_seed_def demo_ops_def)
  have brk: "sweep_break (ber_floor (demo_params nt)) \<lparr>ber = 0, bits = b, errs = 0, ci_lo = 0, ci_hi = 0\<rparr>"
    for nt b
    by (simp add: sweep_break_def demo_params_def)
  show "main_records demo_ops 1 t rd (demo_params 2) hw 4 4 1 [[0, 0, 0, 0, 1]]
     = Some [(4, \<lparr>ber = 0, bits = 1, errs = 0, ci_lo = 0, ci_hi = 0\<rparr>)]"
    using demo_sim_one [of hw] by (simp add: main_records_def rng demo_params_at_4 brk)
  show "main_records demo_ops 1 t rd (demo_params 2) hw 4 4 1 [[0, 1, 0, 1, 0, 1, 0, 1]]
     = Some [(4, \<lparr>ber = 0, bits = 2, errs = 0, ci_lo = 0, ci_hi = 0\<rparr>)]"
    using demo_sim_two [of hw] by (simp add: main_records_def rng demo_params_at_4 brk)
  show "main_records demo_ops 1 t rd (demo_params 1) hw 4 4 1 [[0, 0, 0, 0]]
     = Some [(4, \<lparr>ber = 0, bits = 1, errs = 0, ci_lo = 0, ci_hi = 0\<rparr>)]"
    using demo_sim_single [of hw] by (simp add: main_records_def rng demo_params_at_4 brk)
  show "main_records demo_ops 1 t rd (demo_params 1) hw 4 4 1 [[0, 0, 7, 0, 0, 0]]
     = Some [(4, \<lparr>ber = 0, bits = 1, errs = 0, ci_lo = 0, ci_hi = 0\<rparr>)]"
    using demo_sim_single [of hw] by (simp add: main_records_def rng demo_params_at_4 brk)
qed

subsection \<open>The configuration with an interval\<close>

lemma z975_pos: "0 < z975"
  by (simp add: z975_def)

lemma ci_params_at: "(ci_params len flr snr)\<lparr>ebn0_db := snr'\<rparr> = ci_params len flr snr'"
  by (simp add: ci_params_def)

lemma ci_params_floor: "ber_floor (ci_params len flr snr) = flr"
  by (simp add: ci_params_def)

lemma ci_params_ci:
  "ci_abs (ci_params len flr snr) = 1 / 2" "ci_rel (ci_params len flr snr) = 0"
  "crit_z (ci_params len flr snr) = z975"
  by (simp_all add: ci_params_def)

lemma noisy_gen_bits: "gen_bits noisy_ops k g = (replicate k 0, g + k)"
  by (induction k arbitrary: g) (simp_all add: noisy_ops_def demo_ops_def)

lemma noisy_symbol:
  assumes "i < k"
  shows "symbol_step noisy_ops (ci_params len flr snr) sigma (replicate k 0) i (c_hat, llr, g)
           = (c_hat @ [if 1 + sigma * (- 3 / 2) < 0 then 1 else 0], llr, g + 1)"
  using assms
  by (simp add: symbol_step_def noisy_ops_def demo_ops_def ci_params_def load_inbits_def
      push_group_def equalize_def Let_def)

lemma noisy_chain:
  "chain_loop noisy_ops (ci_params len flr snr) sigma (replicate k 0) i (c_hat, llr, g)
     = (c_hat @ replicate (k - i) (if 1 + sigma * (- 3 / 2) < 0 then 1 else 0), llr, g + (k - i))"
proof (induction "k - i" arbitrary: i c_hat g)
  case 0
  then show ?case
    by (subst chain_loop.simps) simp
next
  case (Suc j)
  then have i: "i < k" and j: "j = k - (i + 1)"
    by simp_all
  have m: "bits_per_symbol (the_modem (ci_params len flr snr)) = 1"
    by (simp add: ci_params_def)
  have "chain_loop noisy_ops (ci_params len flr snr) sigma (replicate k 0) i (c_hat, llr, g)
          = chain_loop noisy_ops (ci_params len flr snr) sigma (replicate k 0) (i + 1)
              (c_hat @ [if 1 + sigma * (- 3 / 2) < 0 then 1 else 0], llr, g + 1)"
    using i by (subst chain_loop.simps) (simp add: m noisy_symbol)
  also have "\<dots> = ((c_hat @ [if 1 + sigma * (- 3 / 2) < 0 then 1 else 0])
                      @ replicate (k - (i + 1)) (if 1 + sigma * (- 3 / 2) < 0 then 1 else 0),
                    llr, g + 1 + (k - (i + 1)))"
    using j by (rule Suc.hyps(1))
  also have "\<dots> = (c_hat @ replicate (k - i) (if 1 + sigma * (- 3 / 2) < 0 then 1 else 0),
                    llr, g + (k - i))"
  proof -
    have e: "k - i = Suc j" "k - (i + 1) = j"
      using Suc.hyps(2) by simp_all
    show ?thesis
      unfolding e by simp
  qed
  finally show ?case .
qed

lemma noisy_count:
  "count_errors (replicate k 0) (replicate k c) = (k, if c \<noteq> 0 then k else 0)"
proof -
  have "foldl (\<lambda>e j. e + (if replicate k 0 ! j \<noteq> replicate k c ! j then 1 else 0)) a xs
          = a + (if c \<noteq> 0 then length xs else 0)"
    if "set xs \<subseteq> {..<k}" for a :: nat and xs
    using that by (induction xs arbitrary: a) auto
  moreover have "set [0..<k] \<subseteq> {..<k}"
    by auto
  ultimately have "foldl (\<lambda>e j. e + (if replicate k 0 ! j \<noteq> replicate k c ! j then 1 else 0)) 0 [0..<k]
          = 0 + (if c \<noteq> 0 then length [0..<k] else 0)"
    by blast
  then have "foldl (\<lambda>e j. e + (if replicate k 0 ! j \<noteq> replicate k c ! j then 1 else 0)) 0 [0..<k]
          = (if c \<noteq> 0 then k else 0)"
    by (simp only: add_0 length_upt diff_zero)
  then show ?thesis
    by (simp only: count_errors_def Let_def length_replicate min.idem)
qed

lemma noisy_frame:
  "frame_body noisy_ops (ci_params len flr snr) g
     = ((nat len, if 1 + noise_sigma (ci_params len flr snr) * (- 3 / 2) < 0 then nat len else 0),
        g + 2 * nat len)"
proof -
  have P: "frame_len_bits (ci_params len flr snr) = len" "the_coder (ci_params len flr snr) = Uncoded"
    by (simp_all add: ci_params_def)
  have c: "chain_loop noisy_ops (ci_params len flr snr) (noise_sigma (ci_params len flr snr))
             (replicate (nat len) 0) 0 ([], [], g + nat len)
           = (replicate (nat len)
                (if 1 + noise_sigma (ci_params len flr snr) * (- 3 / 2) < 0 then 1 else 0),
              [], g + 2 * nat len)"
    unfolding noisy_chain by simp
  show ?thesis
    by (simp only: frame_body_def P noisy_gen_bits prod.case Let_def coder_encode.simps c
        supports_soft.simps if_False coder_decode.simps noisy_count) simp
qed

lemma sigma_at_0: "1 + noise_sigma (ci_params len flr 0) * (- 3 / 2) < 0"
proof -
  have "noise_sigma (ci_params len flr 0) = sqrt (1 / 2)"
    by (simp add: noise_sigma_def ci_params_def)
  moreover have "2 / 3 < sqrt (1 / 2)"
    by (rule real_less_rsqrt) (simp add: power2_eq_square)
  ultimately show ?thesis
    by simp
qed

lemma sigma_at_20: "\<not> 1 + noise_sigma (ci_params len flr 20) * (- 3 / 2) < 0"
proof -
  have "noise_sigma (ci_params len flr 20) = sqrt (1 / 200)"
    by (simp add: noise_sigma_def ci_params_def)
  moreover have "sqrt (1 / 200) < 2 / 3"
    by (rule real_less_lsqrt) (simp_all add: power2_eq_square)
  ultimately show ?thesis
    by simp
qed

lemma noisy_stop: "0 < len \<Longrightarrow> worker_stop (ci_params len flr snr) (nat len) e"
  by (simp add: worker_stop_def ci_params_def)

lemma noisy_run:
  assumes "0 < len"
  shows "foldl (worker_step noisy_ops (ci_params len flr snr))
     (\<lparr>total_bits = 0, total_err = 0, stop = False\<rparr>, [Top g]) [0, 0, 0, 0]
   = (\<lparr>total_bits = nat len,
       total_err = (if 1 + noise_sigma (ci_params len flr snr) * (- 3 / 2) < 0 then nat len else 0),
       stop = True\<rparr>, [Exited])"
  using noisy_stop [OF assms] by (simp add: worker_step_def noisy_frame)

lemma noisy_init:
  "\<exists>g0. engine_init noisy_ops (ci_params len flr snr) hw g
          = ((\<lparr>total_bits = 0, total_err = 0, stop = False\<rparr>, [Top g0]), g + 1)"
  by (simp add: engine_init_def noisy_ops_def demo_ops_def ci_params_def threads_def seeds_def)

lemma noisy_sim:
  assumes "0 < len"
  shows "simulate_framewise noisy_ops (ci_params len flr snr) hw g [0, 0, 0, 0]
     = Some (ber_result (ci_params len flr snr)
               \<lparr>total_bits = nat len,
                total_err = (if 1 + noise_sigma (ci_params len flr snr) * (- 3 / 2) < 0
                             then nat len else 0),
                stop = True\<rparr>, g + 1)"
proof -
  obtain g0 where "engine_init noisy_ops (ci_params len flr snr) hw g
          = ((\<lparr>total_bits = 0, total_err = 0, stop = False\<rparr>, [Top g0]), g + 1)"
    using noisy_init by blast
  then show ?thesis
    by (simp only: simulate_framewise_def noisy_run [OF assms] prod.case Let_def)
      (simp add: finished_def)
qed

lemma noisy_sim_0:
  "simulate_framewise noisy_ops (ci_params 6 flr 0) hw g [0, 0, 0, 0] = Some (six_of_six, g + 1)"
  using sigma_at_0 [of 6 flr]
  by (simp add: noisy_sim ber_result_def six_of_six_def z975_pos wilson_6_6 to_double_6 fl_01
      ci_params_ci)

lemma noisy_sim_20:
  "simulate_framewise noisy_ops (ci_params 6 flr 20) hw g [0, 0, 0, 0] = Some (none_of_six, g + 1)"
  using sigma_at_20 [of 6 flr]
  by (simp add: noisy_sim ber_result_def none_of_six_def z975_pos wilson_0_6 to_double_6
      to_double_0 fdiv_def rne_0 ci_params_ci)


lemma noisy_seed: "seed_rng noisy_ops (make_seed 1 t rd) = 1"
  by (simp add: make_seed_def noisy_ops_def demo_ops_def)

lemma noisy_tail:
  "sweep noisy_ops (ci_params 6 (1 / 2) 0) hw 0 20 3 1 g [[0, 0, 0, 0], [0, 0, 0, 0]]
     = Some [(20, none_of_six)]"
proof -
  have "sweep_break (1 / 2) none_of_six"
    by (simp add: sweep_break_def none_of_six_def)
  then show ?thesis
    by (simp add: ci_params_at ci_params_floor noisy_sim_20)
qed



theorem sweep_stops_ternary_witness:
  "(0::int) < 3
   \<and> simulate_framewise noisy_ops (ci_params 6 (1 / 2) 0) 0 1 [0, 0, 0, 0] = Some (six_of_six, 2)
   \<and> \<not> sweep_break (ber_floor (ci_params 6 (1 / 2) 0)) six_of_six
   \<and> sweep noisy_ops (ci_params 6 (1 / 2) 0) 0 0 20 3 0 1
         [[0, 0, 0, 0], [0, 0, 0, 0], [0, 0, 0, 0]]
       = Some [(0, six_of_six), (20, none_of_six)]"
  using sweep_stops_ternary [where i = 0 and n = 3 and ops = noisy_ops
      and P = "ci_params 6 (1 / 2) 0" and start = 0 and step = 20 and hw = 0 and rng = 1
      and sched = "[0, 0, 0, 0]" and r = six_of_six and rng' = 2
      and rest = "[[0, 0, 0, 0], [0, 0, 0, 0]]"]
    noisy_sim_0 [of "1 / 2" 0 1] noisy_tail [of 0 2]
  by (simp add: ci_params_at ci_params_floor sweep_break_def six_of_six_def del: sweep.simps)

text \<open>
  C7, as stated, fails on a grid of three points (0, 20 and 40 dB) with
  \<open>ber_floor = 1 - 2^-53\<close>: the first point returns six errors in six bits, with
  \<open>ci_hi = 1 - 2^-53\<close> and \<open>ber = 1\<close>. The driver tests \<open>ci_hi\<close> alone and ends the sweep
  after that point, while \<open>max(ci_hi, ber) = 1\<close> exceeds the floor.
\<close>

theorem sweep_break_not_max:
  "main_records noisy_ops 1 0 0 (ci_params 6 (1 - 1 / 2 ^ 53) 0) 0 0 40 20
       [[0, 0, 0, 0], [0, 0, 0, 0], [0, 0, 0, 0]]
     = Some [(0, six_of_six)]
   \<and> \<not> (ber_floor (ci_params 6 (1 - 1 / 2 ^ 53) 0) > 0
        \<and> max (ci_hi six_of_six) (ber six_of_six) \<le> ber_floor (ci_params 6 (1 - 1 / 2 ^ 53) 0))"
proof -
  have brk: "sweep_break (1 - 1 / 2 ^ 53) six_of_six"
    by (simp add: sweep_break_def six_of_six_def)
  have "main_records noisy_ops 1 0 0 (ci_params 6 (1 - 1 / 2 ^ 53) 0) 0 0 40 20
       [[0, 0, 0, 0], [0, 0, 0, 0], [0, 0, 0, 0]] = Some [(0, six_of_six)]"
    using brk by (simp add: main_records_def noisy_seed ci_params_at ci_params_floor noisy_sim_0)
  moreover have "\<not> max (ci_hi six_of_six) (ber six_of_six) \<le> 1 - 1 / 2 ^ 53"
    by (simp add: six_of_six_def)
  ultimately show ?thesis
    by (simp add: ci_params_floor)
qed

section \<open>The length of a frame\<close>

lemma length_gen_bits: "length (fst (gen_bits ops n trng)) = n"
proof (induction n arbitrary: trng)
  case 0
  show ?case by simp
next
  case (Suc n)
  obtain b trng1 where b: "bernoulli ops trng = (b, trng1)"
    by (metis prod.exhaust)
  obtain bs trng2 where bs: "gen_bits ops n trng1 = (bs, trng2)"
    by (metis prod.exhaust)
  from Suc.IH [of trng1] bs have "length bs = n" by simp
  with b bs show ?case by simp
qed

lemma length_push_group: "length (push_group a n i mbs v) = length v + min mbs (n - i)"
proof (induction mbs)
  case 0
  show ?case by (simp add: push_group_def)
next
  case (Suc m)
  then show ?case by (auto simp: push_group_def)
qed

lemma symbol_step_length:
  "length (fst (symbol_step ops P sigma c i (c_hat, llr, trng)))
     = length c_hat + min (bits_per_symbol (the_modem P)) (length c - i)"
  by (simp add: symbol_step_def Let_def length_push_group split: prod.splits)

lemma chain_loop_length:
  "length (fst (chain_loop ops P sigma c i st)) = length (fst st) + (length c - i)"
proof (induction ops P sigma c i st rule: chain_loop.induct)
  case (1 ops P sigma c i st)
  show ?case
  proof (cases "i < length c")
    case False
    then show ?thesis by (simp add: chain_loop.simps)
  next
    case True
    obtain c_hat llr trng where st: "st = (c_hat, llr, trng)"
      by (metis prod.exhaust)
    have "length (fst (chain_loop ops P sigma c i st))
            = length (fst (symbol_step ops P sigma c i st))
              + (length c - (i + bits_per_symbol (the_modem P)))"
      using True "1.IH" by (subst chain_loop.simps) simp
    also have "\<dots> = length (fst st) + (length c - i)"
      using True unfolding st symbol_step_length by simp
    finally show ?thesis .
  qed
qed

lemma length_tb_fold:
  "length (snd (foldl (tb_step pred dec K) st ts)) = length (snd st)"
  by (induction ts arbitrary: st) (simp_all add: tb_step_def Let_def split: prod.splits)

lemma length_decode:
  "length (decode c_hat) = (if length c_hat div 2 > M then length c_hat div 2 - M else 0)"
  by (auto simp: decode_def Let_def length_tb_fold split: prod.splits simp flip: length_0_conv)

lemma length_coder_roundtrip:
  assumes "length c_hat = length (coder_encode cd u)"
  shows "length (coder_decode cd c_hat) = length u"
proof (cases cd)
  case Uncoded
  with assms show ?thesis by simp
next
  case ConvK7R12
  with assms show ?thesis
    by (simp add: length_decode encode_length M_def)
qed

lemma frame_body_length:
  "fst (fst (frame_body ops P trng)) = nat (frame_len_bits P)"
proof -
  obtain u trng1 where gb: "gen_bits ops (nat (frame_len_bits P)) trng = (u, trng1)"
    by (metis prod.exhaust)
  have lu: "length u = nat (frame_len_bits P)"
    using length_gen_bits [of ops "nat (frame_len_bits P)" trng] gb by simp
  obtain c_hat llr trng2
    where cl: "chain_loop ops P (noise_sigma P) (coder_encode (the_coder P) u) 0 ([], [], trng1)
                 = (c_hat, llr, trng2)"
    by (metis prod.exhaust)
  have "length c_hat = length (coder_encode (the_coder P) u)"
    using chain_loop_length [of ops P "noise_sigma P" "coder_encode (the_coder P) u" 0 "([], [], trng1)"] cl
    by simp
  then have "length (coder_decode (the_coder P) c_hat) = length u"
    by (rule length_coder_roundtrip)
  then show ?thesis
    using gb cl lu by (simp add: frame_body_def count_errors_def Let_def)
qed

lemma frame_body_errs: "snd (fst (frame_body ops P trng)) \<le> nat (frame_len_bits P)"
proof -
  obtain L le g' where fb: "frame_body ops P trng = ((L, le), g')"
    by (metis prod.exhaust)
  from frame_body_le [OF fb] frame_body_length [of ops P trng] fb show ?thesis
    by simp
qed

section \<open>The bit total counts whole frames\<close>

lemma worker_step_length: "length (snd (worker_step ops P st tid)) = length (snd st)"
  by (cases st) (auto simp: worker_step_def Let_def split: wstate.splits prod.splits)

lemma worker_step_frames_inv:
  assumes "frames_inv (nat (frame_len_bits P)) st"
  shows "frames_inv (nat (frame_len_bits P)) (worker_step ops P st tid)"
proof (cases st)
  case (Pair sh ws)
  show ?thesis
  proof (cases "tid < length ws")
    case False
    with Pair assms show ?thesis by (simp add: worker_step_def)
  next
    case True
    show ?thesis
    proof (cases "ws ! tid")
      case (Top g)
      with Pair True assms show ?thesis
        by (auto simp: worker_step_def frames_inv_def nth_list_update)
    next
      case (Loaded g)
      obtain L le g' where fb: "frame_body ops P g = ((L, le), g')"
        by (metis prod.exhaust)
      have L: "L = nat (frame_len_bits P)"
        using frame_body_length [of ops P g] fb by simp
      from Pair True assms Loaded fb L show ?thesis
        by (simp add: worker_step_def frames_inv_def Let_def)
    next
      case (AddedBits g ba le)
      then have "\<exists>i < length ws. \<not> early (ws ! i)"
        using True by auto
      with Pair True assms AddedBits show ?thesis
        by (simp add: worker_step_def frames_inv_def Let_def)
    next
      case Storing
      then have "\<exists>i < length ws. \<not> early (ws ! i)"
        using True by auto
      with Pair True assms Storing show ?thesis
        by (simp add: worker_step_def frames_inv_def)
    next
      case Exited
      with Pair True assms show ?thesis
        by (simp add: worker_step_def)
    qed
  qed
qed

lemma run_frames_inv:
  "frames_inv (nat (frame_len_bits P)) st
     \<Longrightarrow> frames_inv (nat (frame_len_bits P)) (foldl (worker_step ops P) st sched)"
  by (induction sched arbitrary: st) (simp_all add: worker_step_frames_inv)

lemma init_frames_inv: "frames_inv F (fst (engine_init ops P hw rng))"
  by (auto simp: engine_init_def frames_inv_def split: prod.splits)

lemma init_length: "length (snd (fst (engine_init ops P hw rng))) = threads P hw"
  by (simp add: engine_init_def seeds_def split: prod.splits)

lemma run_length:
  "length (snd (foldl (worker_step ops P) st sched)) = length (snd st)"
  by (induction sched arbitrary: st) (simp_all add: worker_step_length)

lemma threads_pos: "0 < threads P hw"
  by (simp add: threads_def)

lemma finished_frames:
  assumes "frames_inv F st" "finished st" "0 < length (snd st)" "0 < F"
  shows "\<exists>k\<ge>1. total_bits (fst st) = k * F"
proof -
  have "snd st ! 0 = Exited"
    using assms(2,3) by (simp add: finished_def list_all_length)
  then have "\<exists>i < length (snd st). \<not> early (snd st ! i)"
    using assms(3) by (intro exI [of _ 0]) simp
  with assms(1) have "F dvd total_bits (fst st)" "F \<le> total_bits (fst st)"
    by (simp_all add: frames_inv_def)
  then obtain k where k: "total_bits (fst st) = F * k"
    by (auto simp: dvd_def)
  with \<open>F \<le> total_bits (fst st)\<close> assms(4) have "1 \<le> k"
    by (cases k) auto
  with k show ?thesis
    by (auto simp: mult.commute)
qed

lemma publish_adds_frame:
  assumes "tid < length ws" and "ws ! tid = Loaded trng"
  shows "total_bits (fst (worker_step ops P (sh, ws) tid)) = total_bits sh + nat (frame_len_bits P)"
proof -
  obtain L le g' where fb: "frame_body ops P trng = ((L, le), g')"
    by (metis prod.exhaust)
  have "L = nat (frame_len_bits P)"
    using frame_body_length [of ops P trng] fb by simp
  with assms fb show ?thesis
    by (simp add: worker_step_def Let_def)
qed

text \<open>
  C10. Whatever the coder, the modem, the channel and the draws, the compared length of
  a frame is \<open>frame_len_bits\<close> and its error count is at most that, and publishing it
  adds exactly \<open>frame_len_bits\<close> to \<open>total_bits\<close>; so at every moment of every schedule
  \<open>total_bits\<close> is a multiple of the frame length and \<open>total_err \<le> total_bits\<close>; and in
  every returned record, for a positive frame length, \<open>bits\<close> is a positive multiple of
  it and \<open>errs \<le> bits\<close>.
\<close>

theorem frame_accounting:
  "(\<forall>trng. fst (fst (frame_body ops P trng)) = nat (frame_len_bits P)
          \<and> snd (fst (frame_body ops P trng)) \<le> nat (frame_len_bits P))
   \<and> (\<forall>sh ws tid trng. tid < length ws \<and> ws ! tid = Loaded trng
        \<longrightarrow> total_bits (fst (worker_step ops P (sh, ws) tid))
              = total_bits sh + nat (frame_len_bits P))
   \<and> (\<forall>sched. let st = foldl (worker_step ops P) (fst (engine_init ops P hw rng)) sched
              in nat (frame_len_bits P) dvd total_bits (fst st)
               \<and> total_err (fst st) \<le> total_bits (fst st))
   \<and> (\<forall>sched r rng'. 0 < frame_len_bits P
          \<and> simulate_framewise ops P hw rng sched = Some (r, rng')
        \<longrightarrow> (\<exists>k\<ge>1. bits r = k * nat (frame_len_bits P)) \<and> errs r \<le> bits r)"
proof (intro conjI allI impI)
  fix trng
  show "fst (fst (frame_body ops P trng)) = nat (frame_len_bits P)"
    by (rule frame_body_length)
  show "snd (fst (frame_body ops P trng)) \<le> nat (frame_len_bits P)"
    by (rule frame_body_errs)
next
  fix sh ws tid and trng :: 'a
  assume "tid < length ws \<and> ws ! tid = Loaded trng"
  then show "total_bits (fst (worker_step ops P (sh, ws) tid))
               = total_bits sh + nat (frame_len_bits P)"
    by (simp add: publish_adds_frame)
next
  fix sched
  define st where "st = foldl (worker_step ops P) (fst (engine_init ops P hw rng)) sched"
  have "frames_inv (nat (frame_len_bits P)) st" "errs_inv st"
    unfolding st_def
    by (simp_all add: run_frames_inv init_frames_inv run_errs_inv init_errs_inv)
  then show "let st = foldl (worker_step ops P) (fst (engine_init ops P hw rng)) sched
             in nat (frame_len_bits P) dvd total_bits (fst st)
              \<and> total_err (fst st) \<le> total_bits (fst st)"
    unfolding st_def [symmetric] by (simp add: frames_inv_def errs_inv_def)
next
  fix sched r rng'
  assume a: "0 < frame_len_bits P \<and> simulate_framewise ops P hw rng sched = Some (r, rng')"
  define st where "st = foldl (worker_step ops P) (fst (engine_init ops P hw rng)) sched"
  have inv: "frames_inv (nat (frame_len_bits P)) st" "errs_inv st"
    unfolding st_def
    by (simp_all add: run_frames_inv init_frames_inv run_errs_inv init_errs_inv)
  have len: "0 < length (snd st)"
    unfolding st_def by (simp add: run_length init_length threads_pos)
  from a have fin: "finished st" and r: "r = ber_result P (fst st)"
    by (auto simp: simulate_framewise_def Let_def st_def split: prod.splits if_splits)
  from a have F: "0 < nat (frame_len_bits P)" by simp
  show "\<exists>k\<ge>1. bits r = k * nat (frame_len_bits P)"
    using finished_frames [OF inv(1) fin len F] by (simp add: r ber_result_fields)
  show "errs r \<le> bits r"
    using inv(2) by (simp add: r ber_result_fields errs_inv_def)
qed

theorem frame_accounting_witness:
  "0 < frame_len_bits (demo_params 2)
   \<and> simulate_framewise demo_ops (demo_params 2) 0 1 [0, 1, 0, 1, 0, 1, 0, 1]
       = Some (\<lparr>ber = 0, bits = 2, errs = 0, ci_lo = 0, ci_hi = 0\<rparr>, 2)
   \<and> (\<exists>k\<ge>1. (2::nat) = k * nat (frame_len_bits (demo_params 2)))"
  using frame_accounting [of demo_ops "demo_params 2" 0 1, THEN conjunct2, THEN conjunct2,
      THEN conjunct2, rule_format, of "[0, 1, 0, 1, 0, 1, 0, 1]"
      "\<lparr>ber = 0, bits = 2, errs = 0, ci_lo = 0, ci_hi = 0\<rparr>" 2]
    demo_sim_two [of 0]
  by (simp add: demo_params_def)

section \<open>Reproducibility\<close>

lemma worker_step_finished:
  assumes "finished st"
  shows "worker_step ops P st tid = st"
proof (cases st)
  case (Pair sh ws)
  show ?thesis
  proof (cases "tid < length ws")
    case False
    with Pair show ?thesis by (simp add: worker_step_def)
  next
    case True
    with assms Pair have "ws ! tid = Exited"
      by (simp add: finished_def list_all_length)
    with Pair True show ?thesis by (simp add: worker_step_def)
  qed
qed

lemma funpow_finished:
  assumes "finished ((g ^^ k) st)" and "\<And>s. finished s \<Longrightarrow> g s = s"
  shows "(g ^^ (k + j)) st = (g ^^ k) st"
proof (induction j)
  case 0
  show ?case by simp
next
  case (Suc j)
  have "(g ^^ (k + Suc j)) st = g ((g ^^ (k + j)) st)" by simp
  also have "\<dots> = g ((g ^^ k) st)" by (simp only: Suc.IH)
  also have "\<dots> = (g ^^ k) st" using assms by simp
  finally show ?case .
qed

lemma single_worker_run:
  assumes "length (snd st) = 1"
  shows "foldl (worker_step ops P) st sched
           = ((\<lambda>s. worker_step ops P s 0) ^^ length (filter (\<lambda>t. t = 0) sched)) st"
  using assms
proof (induction sched arbitrary: st)
  case Nil
  show ?case by simp
next
  case (Cons tid sched)
  show ?case
  proof (cases "tid = 0")
    case True
    have len: "length (snd (worker_step ops P st 0)) = 1"
      using Cons.prems by (simp add: worker_step_length)
    have "foldl (worker_step ops P) st (tid # sched)
            = ((\<lambda>s. worker_step ops P s 0) ^^ length (filter (\<lambda>t. t = 0) sched))
                (worker_step ops P st 0)"
      using True Cons.IH [OF len] by simp
    also have "\<dots> = ((\<lambda>s. worker_step ops P s 0) ^^ Suc (length (filter (\<lambda>t. t = 0) sched))) st"
      by (simp only: funpow_Suc_right o_apply)
    finally show ?thesis
      using True by simp
  next
    case False
    then have "worker_step ops P st tid = st"
      using Cons.prems by (cases st) (simp add: worker_step_def)
    with False Cons.IH [OF Cons.prems] show ?thesis by simp
  qed
qed

lemma single_worker_confluent:
  assumes len: "length (snd st) = 1"
    and f1: "finished (foldl (worker_step ops P) st s1)"
    and f2: "finished (foldl (worker_step ops P) st s2)"
  shows "foldl (worker_step ops P) st s1 = foldl (worker_step ops P) st s2"
proof -
  define g where "g = (\<lambda>s. worker_step ops P s 0)"
  define k1 where "k1 = length (filter (\<lambda>t. t = 0) s1)"
  define k2 where "k2 = length (filter (\<lambda>t. t = 0) s2)"
  have r1: "foldl (worker_step ops P) st s1 = (g ^^ k1) st"
    and r2: "foldl (worker_step ops P) st s2 = (g ^^ k2) st"
    unfolding g_def k1_def k2_def by (rule single_worker_run [OF len])+
  have idem: "finished s \<Longrightarrow> g s = s" for s
    unfolding g_def by (rule worker_step_finished)
  show ?thesis
  proof (cases "k1 \<le> k2")
    case True
    then obtain j where "k2 = k1 + j" by (auto simp: le_iff_add)
    with funpow_finished [where g = g and k = k1 and st = st and j = j] f1 idem show ?thesis
      by (simp add: r1 r2)
  next
    case False
    then have "k2 \<le> k1" by simp
    then obtain j where "k1 = k2 + j" by (auto simp: le_iff_add)
    with funpow_finished [where g = g and k = k2 and st = st and j = j] f2 idem show ?thesis
      by (simp add: r1 r2)
  qed
qed

lemma single_worker_simulate:
  assumes "threads P hw = 1"
    and "simulate_framewise ops P hw rng s1 = Some x1"
    and "simulate_framewise ops P hw rng s2 = Some x2"
  shows "x1 = x2"
proof -
  obtain st0 rng0 where init: "engine_init ops P hw rng = (st0, rng0)"
    by (metis prod.exhaust)
  have len: "length (snd st0) = 1"
    using init_length [of ops P hw rng] init assms(1) by simp
  from assms(2) init have f1: "finished (foldl (worker_step ops P) st0 s1)"
    and x1: "x1 = (ber_result P (fst (foldl (worker_step ops P) st0 s1)), rng0)"
    by (auto simp: simulate_framewise_def Let_def split: if_splits)
  from assms(3) init have f2: "finished (foldl (worker_step ops P) st0 s2)"
    and x2: "x2 = (ber_result P (fst (foldl (worker_step ops P) st0 s2)), rng0)"
    by (auto simp: simulate_framewise_def Let_def split: if_splits)
  show ?thesis
    unfolding x1 x2 using single_worker_confluent [OF len f1 f2] by simp
qed

lemma single_worker_sweep:
  assumes "threads P hw = 1"
    and "sweep ops P hw start step n i rng scheds1 = Some l1"
    and "sweep ops P hw start step n i rng scheds2 = Some l2"
  shows "l1 = l2"
  using assms(2,3)
proof (induction scheds1 arbitrary: scheds2 i rng l1 l2)
  case Nil
  then show ?case
    by (cases scheds2) (auto split: if_splits)
next
  case (Cons s1 rest1)
  show ?case
  proof (cases "i < n")
    case False
    with Cons.prems show ?thesis
      by (cases scheds2) auto
  next
    case True
    with Cons.prems(2) obtain s2 rest2 where sc2: "scheds2 = s2 # rest2"
      by (cases scheds2) auto
    define Q where "Q = P\<lparr>ebn0_db := start + real_of_int i * step\<rparr>"
    have "threads Q hw = threads P hw"
      by (simp add: Q_def threads_def)
    with assms(1) have thr: "threads Q hw = 1"
      by simp
    from Cons.prems(1) True obtain x1 where x1: "simulate_framewise ops Q hw rng s1 = Some x1"
      by (auto simp: Q_def Let_def split: option.splits)
    from Cons.prems(2) True sc2 obtain x2 where x2: "simulate_framewise ops Q hw rng s2 = Some x2"
      by (auto simp: Q_def Let_def split: option.splits)
    have eq: "x2 = x1"
      using single_worker_simulate [OF thr x1 x2] by simp
    obtain r rng' where x1': "x1 = (r, rng')" by (metis prod.exhaust)
    show ?thesis
    proof (cases "sweep_break (ber_floor P) r")
      case True
      with Cons.prems \<open>i < n\<close> sc2 x1 x2 eq x1' show ?thesis
        by (simp add: Q_def Let_def)
    next
      case False
      with Cons.prems(1) \<open>i < n\<close> x1 x1' obtain m1
        where m1: "sweep ops P hw start step n (i + 1) rng' rest1 = Some m1"
          and l1: "l1 = (start + real_of_int i * step, r) # m1"
        by (auto simp: Q_def Let_def)
      from False Cons.prems(2) \<open>i < n\<close> sc2 x2 eq x1' obtain m2
        where m2: "sweep ops P hw start step n (i + 1) rng' rest2 = Some m2"
          and l2: "l2 = (start + real_of_int i * step, r) # m2"
        by (auto simp: Q_def Let_def)
      from Cons.IH [OF m1 m2] l1 l2 show ?thesis by simp
    qed
  qed
qed

text \<open>
  C4, as the code has it. The atomic operations of several workers interleave freely,
  and how many frames are published before every worker has seen the stop flag
  depends on the interleaving. With a single worker the interleaving is fixed: two
  runs with the same configuration and the same non-zero seed write the same records,
  whatever the clock and the entropy source read.
\<close>

theorem single_worker_reproducible:
  assumes "threads P hw = 1" and "seed \<noteq> 0"
    and "main_records ops seed t1 rd1 P hw start_db stop_db step_db scheds1 = Some l1"
    and "main_records ops seed t2 rd2 P hw start_db stop_db step_db scheds2 = Some l2"
  shows "l1 = l2"
proof -
  have "make_seed seed t1 rd1 = make_seed seed t2 rd2"
    using assms(2) by (simp add: make_seed_def)
  with assms(3,4) show ?thesis
    by (auto simp: main_records_def Let_def intro: single_worker_sweep [OF assms(1)])
qed

theorem single_worker_reproducible_witness:
  "threads (demo_params 1) 0 = 1 \<and> (1::64 word) \<noteq> 0
   \<and> main_records demo_ops 1 5 6 (demo_params 1) 0 4 4 1 [[0, 0, 0, 0]]
       = Some [(4, \<lparr>ber = 0, bits = 1, errs = 0, ci_lo = 0, ci_hi = 0\<rparr>)]
   \<and> main_records demo_ops 1 8 9 (demo_params 1) 0 4 4 1 [[0, 0, 7, 0, 0, 0]]
       = Some [(4, \<lparr>ber = 0, bits = 1, errs = 0, ci_lo = 0, ci_hi = 0\<rparr>)]"
  using single_worker_reproducible [where P = "demo_params 1" and hw = 0 and seed = 1
      and ops = demo_ops and ?t1.0 = 5 and ?rd1.0 = 6 and ?t2.0 = 8 and ?rd2.0 = 9
      and start_db = 4 and stop_db = 4 and step_db = 1
      and ?scheds1.0 = "[[0, 0, 0, 0]]" and ?scheds2.0 = "[[0, 0, 7, 0, 0, 0]]"]
    demo_main(3) [of 5 6 0] demo_main(4) [of 8 9 0]
  by (simp add: threads_def demo_params_def)

text \<open>
  C4, as stated, fails with two workers: same configuration, same seed \<open>1\<close>, same
  worker count, and the schedule alone changes the record of the one grid point.
  If worker 0 completes its frame and stores the stop flag before worker 1 loads it,
  one bit is counted; if both load the flag first, two are.
\<close>

theorem two_workers_not_reproducible:
  "threads (demo_params 2) 0 = 2
   \<and> main_records demo_ops 1 0 0 (demo_params 2) 0 4 4 1 [[0, 0, 0, 0, 1]]
       = Some [(4, \<lparr>ber = 0, bits = 1, errs = 0, ci_lo = 0, ci_hi = 0\<rparr>)]
   \<and> main_records demo_ops 1 0 0 (demo_params 2) 0 4 4 1 [[0, 1, 0, 1, 0, 1, 0, 1]]
       = Some [(4, \<lparr>ber = 0, bits = 2, errs = 0, ci_lo = 0, ci_hi = 0\<rparr>)]"
  using demo_main(1) [of 0 0 0] demo_main(2) [of 0 0 0]
  by (simp add: threads_def demo_params_def)

section \<open>The Rayleigh chain\<close>

lemma rayleigh_transmit:
  assumes "normal ops trng = (g, trng')"
  shows "transmit ops RayleighChannel s trng sigma = (\<lparr>y = \<bar>g\<bar> * s, gain = \<bar>g\<bar>\<rparr>, trng')"
  using assms by (simp add: Let_def)

lemma rayleigh_equalize:
  assumes "g \<noteq> 0"
  shows "equalize \<lparr>y = \<bar>g\<bar> * s, gain = \<bar>g\<bar>\<rparr> sigma = (\<bar>g\<bar>, s, (sigma * sigma) / (g * g))"
  using assms by (simp add: equalize_def Let_def)

lemma rayleigh_symbol_step:
  assumes "the_channel P = RayleighChannel" and "normal ops trng = (g, trng')" and "g \<noteq> 0"
  shows "symbol_step ops P sigma c i (c_hat, llr, trng)
           = (push_group
                (demodulate (the_modem P)
                   (modulate (the_modem P) (load_inbits c i (bits_per_symbol (the_modem P))))
                   (replicate 8 0))
                (length c) i (bits_per_symbol (the_modem P)) c_hat, llr, trng')"
  using assms(1) rayleigh_transmit [OF assms(2)] rayleigh_equalize [OF assms(3)]
  by (simp add: symbol_step_def Let_def)

text \<open>
  C1, as the code runs. On the Rayleigh channel with fading draw \<open>1/2\<close> and
  transmitted symbol \<open>-1\<close>, for every noise scale \<open>sigma\<close>: \<open>transmit\<close> returns
  \<open>(-1/2, 1/2)\<close>, the equalised observation is the symbol itself, \<open>sigma\<close> only
  reaches \<open>sigma2_eq\<close>, and the step of the chain returns the transmitted bit; no noise
  sample is drawn and the hard demodulator never reads \<open>sigma2_eq\<close>.
\<close>

theorem rayleigh_observation_is_noise_free:
  "\<forall>sigma.
     transmit fading_ops RayleighChannel (- 1) 0 sigma = (\<lparr>y = - 1 / 2, gain = 1 / 2\<rparr>, 1)
   \<and> equalize \<lparr>y = - 1 / 2, gain = 1 / 2\<rparr> sigma = (1 / 2, - 1, (sigma * sigma) / (1 / 4))
   \<and> modulate (the_modem fading_params) (load_inbits [1] 0 1) = - 1
   \<and> symbol_step fading_ops fading_params sigma [1] 0 ([], [], 0) = ([1], [], 1)"
proof (intro allI conjI)
  fix sigma :: real
  have n: "normal fading_ops 0 = (1 / 2, 1)"
    by (simp add: fading_ops_def)
  have ch: "the_channel fading_params = RayleighChannel"
    by (simp add: fading_params_def)
  have md: "the_modem fading_params = Ask2Modem"
    by (simp add: fading_params_def demo_params_def)
  show "transmit fading_ops RayleighChannel (- 1) 0 sigma = (\<lparr>y = - 1 / 2, gain = 1 / 2\<rparr>, 1)"
    using rayleigh_transmit [OF n, of "- 1" sigma] by simp
  show "equalize \<lparr>y = - 1 / 2, gain = 1 / 2\<rparr> sigma = (1 / 2, - 1, (sigma * sigma) / (1 / 4))"
    using rayleigh_equalize [of "1 / 2" "- 1" sigma] by simp
  show "modulate (the_modem fading_params) (load_inbits [1] 0 1) = - 1"
    by (simp add: md load_inbits_def)
  show "symbol_step fading_ops fading_params sigma [1] 0 ([], [], 0) = ([1], [], 1)"
    using rayleigh_symbol_step [OF ch n, of sigma "[1]" 0 "[]" "[]"]
    by (simp add: md load_inbits_def push_group_def)
qed

end
